theory Spec2Isabelle
  imports Main
begin

section \<open>Fan-out registry: internal/redis/subscriber.go\<close>

text \<open>
  A notification parsed from one feed message. The two numeric fields are int64 in the
  source; nothing below computes with them.
\<close>

record EventNotification =
  ChannelID :: string
  EventID :: int
  Timestamp :: int

text \<open>
  A Go channel value is a reference. The channels made by \<open>Subscribe\<close> live in a store
  (a list); a channel value is its index there, so two channel values are equal exactly
  when they are the same channel, as \<open>handler == ch\<close> compares them in Go.
\<close>

type_synonym chan = nat

record chanstate =
  buf :: "EventNotification list"
  cap :: nat
  closed :: bool

datatype panic = SendOnClosedChannel | CloseOfClosedChannel | NoSuchChannel

text \<open>
  The registry: \<open>handlers\<close> is the field of the source; \<open>chans\<close> is the store of the channels
  made so far. The lock \<open>mu\<close> is modelled further down, where calls interleave.
\<close>

record Subscriber =
  handlers :: "string \<rightharpoonup> chan list"
  chans :: "chanstate list"

definition NewSubscriber :: Subscriber where
  "NewSubscriber = \<lparr>handlers = Map.empty, chans = []\<rparr>"

text \<open>Indexing a Go map at a missing key gives the nil slice.\<close>

definition lookup_handlers :: "Subscriber \<Rightarrow> string \<Rightarrow> chan list" where
  "lookup_handlers s channelID = (case handlers s channelID of None \<Rightarrow> [] | Some hs \<Rightarrow> hs)"

text \<open>
  \<open>select { case handler <- notification: default: }\<close>: a send on a closed channel panics,
  a send into a buffer with room appends, and otherwise the default branch runs and the
  notification is dropped. A handle outside the store names no channel.
\<close>

definition try_send :: "chan \<Rightarrow> EventNotification \<Rightarrow> chanstate list \<Rightarrow> panic + chanstate list" where
  "try_send h n cs =
     (if length cs \<le> h then Inl NoSuchChannel
      else if closed (cs ! h) then Inl SendOnClosedChannel
      else if length (buf (cs ! h)) < cap (cs ! h)
        then Inr (cs[h := (cs ! h)\<lparr>buf := buf (cs ! h) @ [n]\<rparr>])
      else Inr cs)"

text \<open>The loop \<open>for _, handler := range handlers\<close> of \<open>handleMessage\<close>.\<close>

fun deliver :: "EventNotification \<Rightarrow> chan list \<Rightarrow> chanstate list \<Rightarrow> panic + chanstate list" where
  "deliver n [] cs = Inr cs"
| "deliver n (h # hs) cs =
     (case try_send h n cs of Inl e \<Rightarrow> Inl e | Inr cs' \<Rightarrow> deliver n hs cs')"

text \<open>
  \<open>handleMessage\<close>; \<open>unmarshal\<close> stands for \<open>json.Unmarshal\<close> into an EventNotification
  (\<open>None\<close> when it returns an error).
\<close>

definition handleMessage ::
  "(string \<Rightarrow> EventNotification option) \<Rightarrow> string \<Rightarrow> Subscriber \<Rightarrow> panic + Subscriber" where
  "handleMessage unmarshal payload s =
     (case unmarshal payload of
        None \<Rightarrow> Inr s
      | Some notification \<Rightarrow>
          (case deliver notification (lookup_handlers s (ChannelID notification)) (chans s) of
             Inl e \<Rightarrow> Inl e
           | Inr cs \<Rightarrow> Inr (s\<lparr>chans := cs\<rparr>)))"

text \<open>\<open>Subscribe\<close>: \<open>make(chan EventNotification, 10)\<close> is a new channel, appended to the store.\<close>

definition Subscribe :: "string \<Rightarrow> Subscriber \<Rightarrow> chan \<times> Subscriber" where
  "Subscribe channelID s =
     (let ch = length (chans s)
      in (ch, s\<lparr>handlers := (handlers s)(channelID \<mapsto> lookup_handlers s channelID @ [ch]),
                 chans := chans s @ [\<lparr>buf = [], cap = 10, closed = False\<rparr>]\<rparr>))"

text \<open>
  The search loop of \<open>Unsubscribe\<close>: the first index \<open>i\<close> with \<open>handlers[i] == ch\<close> gives
  \<open>append(handlers[:i], handlers[i+1:]...)\<close>, and the loop breaks; \<open>None\<close> when no element
  is equal to \<open>ch\<close>.
\<close>

fun remove_handler :: "chan \<Rightarrow> chan list \<Rightarrow> chan list option" where
  "remove_handler ch [] = None"
| "remove_handler ch (h # hs) =
     (if h = ch then Some hs
      else (case remove_handler ch hs of None \<Rightarrow> None | Some hs' \<Rightarrow> Some (h # hs')))"

definition close_chan :: "chan \<Rightarrow> chanstate list \<Rightarrow> panic + chanstate list" where
  "close_chan ch cs =
     (if length cs \<le> ch then Inl NoSuchChannel
      else if closed (cs ! ch) then Inl CloseOfClosedChannel
      else Inr (cs[ch := (cs ! ch)\<lparr>closed := True\<rparr>]))"

text \<open>The last statement of \<open>Unsubscribe\<close>: an entry whose slice is empty is deleted.\<close>

definition delete_if_empty :: "string \<Rightarrow> Subscriber \<Rightarrow> Subscriber" where
  "delete_if_empty channelID s =
     (if length (lookup_handlers s channelID) = 0
      then s\<lparr>handlers := (handlers s)(channelID := None)\<rparr> else s)"

definition Unsubscribe :: "string \<Rightarrow> chan \<Rightarrow> Subscriber \<Rightarrow> panic + Subscriber" where
  "Unsubscribe channelID ch s =
     (case remove_handler ch (lookup_handlers s channelID) of
        None \<Rightarrow> Inr (delete_if_empty channelID s)
      | Some hs' \<Rightarrow>
          (case close_chan ch (chans s) of
             Inl e \<Rightarrow> Inl e
           | Inr cs \<Rightarrow>
               Inr (delete_if_empty channelID
                      (s\<lparr>handlers := (handlers s)(channelID \<mapsto> hs'), chans := cs\<rparr>))))"


text \<open>
  The invariant of the registry: every entry is a non-empty slice without repetition of
  open channels of the store, and no channel is registered under two channel IDs.
\<close>

definition registry_inv :: "Subscriber \<Rightarrow> bool" where
  "registry_inv s \<longleftrightarrow>
     (\<forall>c hs. handlers s c = Some hs \<longrightarrow>
        hs \<noteq> [] \<and> distinct hs \<and> (\<forall>q\<in>set hs. q < length (chans s) \<and> \<not> closed (chans s ! q)))
     \<and> (\<forall>c c' hs hs'. handlers s c = Some hs \<and> handlers s c' = Some hs' \<and> c \<noteq> c' \<longrightarrow>
          set hs \<inter> set hs' = {})"

text \<open>
  The state \<open>Unsubscribe\<close> leaves behind when it finds \<open>ch\<close> in the slice of \<open>c\<close>: the first
  occurrence is removed, the channel is closed, and an entry left empty is deleted.
\<close>

definition removed_state :: "string \<Rightarrow> chan \<Rightarrow> Subscriber \<Rightarrow> Subscriber" where
  "removed_state c ch s =
     s\<lparr>handlers := (if remove1 ch (lookup_handlers s c) = [] then (handlers s)(c := None)
                     else (handlers s)(c \<mapsto> remove1 ch (lookup_handlers s c))),
        chans := (chans s)[ch := (chans s ! ch)\<lparr>closed := True\<rparr>]\<rparr>"




text \<open>
  Concrete inputs for the examples: a parser that reads the payload as the channel ID, a
  notification, and two reachable registry states.
\<close>

definition unmarshal_id :: "string \<Rightarrow> EventNotification option" where
  "unmarshal_id payload =
     (if payload = [] then None else Some \<lparr>ChannelID = payload, EventID = 1, Timestamp = 0\<rparr>)"

definition note_a :: EventNotification where
  "note_a = \<lparr>ChannelID = ''a'', EventID = 1, Timestamp = 0\<rparr>"


definition two_channels :: Subscriber where
  "two_channels = snd (Subscribe ''b'' (snd (Subscribe ''a'' NewSubscriber)))"

section \<open>Feed loop and reconnect supervisor: \<open>Subscriber.Start\<close> and \<open>registerHooks\<close>\<close>

text \<open>
  Error values a call can return: \<open>context.Canceled\<close>, \<open>context.DeadlineExceeded\<close>, and any
  other error. A returned \<open>error\<close> is \<open>None\<close> for nil.
\<close>

datatype go_error = Canceled | DeadlineExceeded | OtherError string













section \<open>Upstream pool: \<open>LaravelUpstreamPool.GetEvents\<close>\<close>

text \<open>
  An event of the backend; \<open>EventData\<close> is the JSON object of the field \<open>Event\<close>, which the
  pool passes through unread.
\<close>

record Event =
  ID :: int
  EventData :: string
  CreatedAt :: int

text \<open>
  The configuration of the pool. The field \<open>semaphore\<close> of the source is a buffered channel
  of capacity \<open>workers\<close>; its length is part of the state of the pool where calls interleave,
  further down.
\<close>

record LaravelUpstreamPool =
  laravelAddr :: string
  secret :: string
  maxLimit :: int
  workers :: nat

text \<open>
  The GET request of \<open>GetEvents\<close>, by the values formatted into its URL (the two strings are
  query-escaped there).
\<close>

record request =
  req_addr :: string
  req_channel_id :: string
  req_secret :: string
  req_offset :: int
  req_limit :: int

datatype fetch_error =
    CtxErr go_error
  | CreateRequestFailed
  | ExecuteRequestFailed string
  | UnexpectedStatus int string
  | DecodeFailed

text \<open>
  What one call meets outside the pool: which case of the first \<open>select\<close> is taken (a permit
  is acquired, or the caller's context is done first, with its error), whether
  \<open>http.NewRequestWithContext\<close> accepts the URL, and what \<open>httpClient.Do\<close> returns (an error,
  or a response with its status code and body).
\<close>

datatype permit_select = PermitAcquired | ContextDone go_error

datatype http_outcome = DoFailed string | Response int string

record fetch_env =
  permit :: permit_select
  url_ok :: bool
  outcome :: http_outcome

definition clamp_limit :: "LaravelUpstreamPool \<Rightarrow> int \<Rightarrow> int" where
  "clamp_limit p limit = (if limit > maxLimit p then maxLimit p else limit)"

definition make_request :: "LaravelUpstreamPool \<Rightarrow> string \<Rightarrow> int \<Rightarrow> int \<Rightarrow> request" where
  "make_request p channelID offset limit =
     \<lparr>req_addr = laravelAddr p, req_channel_id = channelID, req_secret = secret p,
      req_offset = offset, req_limit = limit\<rparr>"

text \<open>
  From \<open>httpClient.Do\<close> to the return: \<open>decode\<close> stands for the JSON decoder of the response
  body (\<open>None\<close> when it returns an error, else the field \<open>Events\<close>).
\<close>

definition exchange_result ::
  "(string \<Rightarrow> Event list option) \<Rightarrow> http_outcome \<Rightarrow> fetch_error + Event list" where
  "exchange_result decode out =
     (case out of
        DoFailed e \<Rightarrow> Inl (ExecuteRequestFailed e)
      | Response code body \<Rightarrow>
          (if code \<noteq> 200 then Inl (UnexpectedStatus code body)
           else (case decode body of None \<Rightarrow> Inl DecodeFailed | Some events \<Rightarrow> Inr events)))"

text \<open>
  \<open>GetEvents\<close> as one call sees it: the value returned, and the requests sent to the backend.
\<close>

definition GetEvents ::
  "LaravelUpstreamPool \<Rightarrow> (string \<Rightarrow> Event list option) \<Rightarrow> fetch_env \<Rightarrow> string \<Rightarrow> int \<Rightarrow> int
     \<Rightarrow> (fetch_error + Event list) \<times> request list" where
  "GetEvents p decode env channelID offset limit =
     (case permit env of
        ContextDone err \<Rightarrow> (Inl (CtxErr err), [])
      | PermitAcquired \<Rightarrow>
          (let limit' = clamp_limit p limit;
               req = make_request p channelID offset limit'
           in if \<not> url_ok env then (Inl CreateRequestFailed, [])
              else (exchange_result decode (outcome env), [req])))"

section \<open>Poll handler: \<open>Handlers.GetUpdates\<close>\<close>

record Handlers =
  upstreamPool :: LaravelUpstreamPool
  accessSecret :: string
  handlers_maxLimit :: int

text \<open>
  Library calls of the handler: \<open>jwtService.ValidateToken\<close> (the channel ID, or \<open>None\<close> for
  an error), \<open>strconv.ParseInt\<close> in base 10 and 64 bits, \<open>strconv.Atoi\<close>, and the decoder of
  the pool.
\<close>

record lib =
  ValidateToken :: "string \<Rightarrow> string option"
  ParseInt :: "string \<Rightarrow> int option"
  Atoi :: "string \<Rightarrow> int option"
  Decode :: "string \<Rightarrow> Event list option"

datatype body = ErrorBody string | EventsBody "Event list"

datatype response = JSON int body

definition Query :: "(string \<rightharpoonup> string) \<Rightarrow> string \<Rightarrow> string" where
  "Query q key = (case q key of None \<Rightarrow> [] | Some v \<Rightarrow> v)"

definition DefaultQuery :: "(string \<rightharpoonup> string) \<Rightarrow> string \<Rightarrow> string \<Rightarrow> string" where
  "DefaultQuery q key d = (case q key of None \<Rightarrow> d | Some v \<Rightarrow> v)"

definition poll_offset :: "lib \<Rightarrow> (string \<rightharpoonup> string) \<Rightarrow> int" where
  "poll_offset l q =
     (case ParseInt l (DefaultQuery q ''offset'' ''0'') of None \<Rightarrow> 0 | Some offset \<Rightarrow> offset)"

definition poll_limit :: "lib \<Rightarrow> Handlers \<Rightarrow> (string \<rightharpoonup> string) \<Rightarrow> int" where
  "poll_limit l h q =
     (let limit = (case Atoi l (DefaultQuery q ''limit'' ''100'') of
                     None \<Rightarrow> 100
                   | Some limit \<Rightarrow> if limit < 1 then 100 else limit)
      in if limit > handlers_maxLimit h then handlers_maxLimit h else limit)"

text \<open>
  Which case the \<open>select\<close> of the handler takes: the context of the poll is done (its
  deadline \<open>pollTimeout\<close> has passed, or the request was canceled), or a notification is
  received from the queue.
\<close>

datatype wake = PollContextDone | Notified EventNotification

text \<open>
  \<open>GetUpdates\<close>: \<open>env1\<close> and \<open>env2\<close> are what the first and the second call of \<open>GetEvents\<close>
  meet. The result is the response written, the requests sent to the backend, and the
  registry as this request leaves it; the deferred \<open>Unsubscribe\<close> runs on every way out
  after \<open>Subscribe\<close>.
\<close>

definition GetUpdates ::
  "lib \<Rightarrow> Handlers \<Rightarrow> (string \<rightharpoonup> string) \<Rightarrow> fetch_env \<Rightarrow> wake \<Rightarrow> fetch_env \<Rightarrow> Subscriber
     \<Rightarrow> panic + (response \<times> request list \<times> Subscriber)" where
  "GetUpdates l h q env1 wk env2 s =
     (let tokenString = Query q ''token'' in
      if tokenString = [] then Inr (JSON 400 (ErrorBody ''token is required''), [], s)
      else
        (case ValidateToken l tokenString of
           None \<Rightarrow> Inr (JSON 401 (ErrorBody ''Invalid or expired token''), [], s)
         | Some channelID \<Rightarrow>
             (let offset = poll_offset l q; limit = poll_limit l h q in
              case GetEvents (upstreamPool h) (Decode l) env1 channelID offset limit of
                (Inl err, reqs) \<Rightarrow>
                  Inr (JSON 500 (ErrorBody ''Failed to fetch events''), reqs, s)
              | (Inr events, reqs) \<Rightarrow>
                  if length events > 0 then Inr (JSON 200 (EventsBody events), reqs, s)
                  else
                    (case Subscribe channelID s of
                       (notifyCh, s1) \<Rightarrow>
                         (let (resp, reqs2) =
                            (case wk of
                               PollContextDone \<Rightarrow> (JSON 200 (EventsBody []), [])
                             | Notified notification \<Rightarrow>
                                 (case GetEvents (upstreamPool h) (Decode l) env2 channelID
                                         offset limit of
                                    (Inl err, reqs2) \<Rightarrow>
                                      (JSON 500 (ErrorBody ''Failed to fetch events''), reqs2)
                                  | (Inr events2, reqs2) \<Rightarrow>
                                      (JSON 200 (EventsBody events2), reqs2)))
                          in case Unsubscribe channelID notifyCh s1 of
                               Inl e \<Rightarrow> Inl e
                             | Inr s2 \<Rightarrow> Inr (resp, reqs @ reqs2, s2))))))"

text \<open>Concrete inputs for the examples.\<close>

definition pool_100 :: LaravelUpstreamPool where
  "pool_100 = \<lparr>laravelAddr = ''http://laravel'', secret = ''s3'', maxLimit = 100, workers = 2\<rparr>"

definition handlers_100 :: Handlers where
  "handlers_100 = \<lparr>upstreamPool = pool_100, accessSecret = ''s3'', handlers_maxLimit = 100\<rparr>"

definition event_5 :: Event where
  "event_5 = \<lparr>ID = 5, EventData = ''{}'', CreatedAt = 0\<rparr>"

definition lib_ex :: lib where
  "lib_ex = \<lparr>ValidateToken = (\<lambda>t. if t = ''tok'' then Some ''a'' else None),
             ParseInt = (\<lambda>s. if s = ''0'' then Some 0 else None),
             Atoi = (\<lambda>s. if s = ''100'' then Some 100 else if s = ''500'' then Some 500 else None),
             Decode = (\<lambda>b. if b = ''none'' then Some [] else if b = ''one'' then Some [event_5] else None)\<rparr>"

definition env_empty :: fetch_env where
  "env_empty = \<lparr>permit = PermitAcquired, url_ok = True, outcome = Response 200 ''none''\<rparr>"

definition env_one :: fetch_env where
  "env_one = \<lparr>permit = PermitAcquired, url_ok = True, outcome = Response 200 ''one''\<rparr>"

definition env_timeout :: fetch_env where
  "env_timeout = \<lparr>permit = ContextDone DeadlineExceeded, url_ok = True, outcome = Response 200 ''one''\<rparr>"

definition query_ex :: "string \<rightharpoonup> string" where
  "query_ex = [''token'' \<mapsto> ''tok'', ''limit'' \<mapsto> ''500'']"

section \<open>Calls of \<open>GetEvents\<close> that interleave\<close>

text \<open>
  One call of \<open>GetEvents\<close> in progress, by the statement it has reached: waiting in the first
  \<open>select\<close>; past it with a permit (the deferred release is registered); past the clamp of
  \<open>limit\<close>; waiting for the reply to its request; about to return a value, with the deferred
  release still to run; returned. \<open>arg_limit\<close> is the argument as passed, \<open>f_limit\<close> the
  variable \<open>limit\<close>.
\<close>

datatype pc =
    AtSelect
  | HoldingPermit
  | Clamped
  | InFlight
  | Deferred "fetch_error + Event list"
  | Returned "fetch_error + Event list"

record frame =
  f_channelID :: string
  f_offset :: int
  arg_limit :: int
  f_limit :: int
  f_pc :: pc

text \<open>
  The pool with its calls: \<open>semaphore\<close> is the length of the buffered channel (the permits
  out), \<open>sent\<close> the requests sent to the backend, each with the index of the call that sent it.
\<close>

record pool_sys =
  pool :: LaravelUpstreamPool
  semaphore :: nat
  frames :: "frame list"
  sent :: "(nat \<times> request) list"

text \<open>\<open>NewLaravelUpstreamPool\<close>: \<open>make(chan struct{}, workers)\<close> is empty.\<close>

definition pool_init :: "LaravelUpstreamPool \<Rightarrow> pool_sys" where
  "pool_init p = \<lparr>pool = p, semaphore = 0, frames = [], sent = []\<rparr>"

text \<open>
  The steps: a new call; call \<open>i\<close> sends into the semaphore (possible only while it has
  room); the context of call \<open>i\<close> is done while it waits in the select; call \<open>i\<close> clamps;
  call \<open>i\<close> builds its request and, unless that fails, sends it; the reply of call \<open>i\<close>
  arrives; the deferred function of call \<open>i\<close> receives from the semaphore and the call
  returns.
\<close>

datatype pool_action =
    Call string int int
  | Acquire nat
  | CtxFires nat go_error
  | Clamp nat
  | SendRequest nat bool
  | Reply nat http_outcome
  | Release nat

definition set_frame :: "pool_sys \<Rightarrow> nat \<Rightarrow> frame \<Rightarrow> pool_sys" where
  "set_frame sys i fr = sys\<lparr>frames := (frames sys)[i := fr]\<rparr>"

fun pool_step ::
  "(string \<Rightarrow> Event list option) \<Rightarrow> pool_sys \<Rightarrow> pool_action \<Rightarrow> pool_sys option" where
  "pool_step decode sys (Call channelID offset limit) =
     Some (sys\<lparr>frames := frames sys @
              [\<lparr>f_channelID = channelID, f_offset = offset, arg_limit = limit,
                f_limit = limit, f_pc = AtSelect\<rparr>]\<rparr>)"
| "pool_step decode sys (Acquire i) =
     (if i < length (frames sys) \<and> f_pc (frames sys ! i) = AtSelect
         \<and> semaphore sys < workers (pool sys)
      then Some (set_frame (sys\<lparr>semaphore := semaphore sys + 1\<rparr>) i
                   ((frames sys ! i)\<lparr>f_pc := HoldingPermit\<rparr>))
      else None)"
| "pool_step decode sys (CtxFires i err) =
     (if i < length (frames sys) \<and> f_pc (frames sys ! i) = AtSelect
      then Some (set_frame sys i ((frames sys ! i)\<lparr>f_pc := Returned (Inl (CtxErr err))\<rparr>))
      else None)"
| "pool_step decode sys (Clamp i) =
     (if i < length (frames sys) \<and> f_pc (frames sys ! i) = HoldingPermit
      then Some (set_frame sys i
                   ((frames sys ! i)\<lparr>f_limit := clamp_limit (pool sys) (f_limit (frames sys ! i)),
                                      f_pc := Clamped\<rparr>))
      else None)"
| "pool_step decode sys (SendRequest i ok) =
     (if i < length (frames sys) \<and> f_pc (frames sys ! i) = Clamped
      then (if \<not> ok
            then Some (set_frame sys i ((frames sys ! i)\<lparr>f_pc := Deferred (Inl CreateRequestFailed)\<rparr>))
            else Some (set_frame
                         (sys\<lparr>sent := sent sys @
                                 [(i, make_request (pool sys) (f_channelID (frames sys ! i))
                                        (f_offset (frames sys ! i)) (f_limit (frames sys ! i)))]\<rparr>)
                         i ((frames sys ! i)\<lparr>f_pc := InFlight\<rparr>)))
      else None)"
| "pool_step decode sys (Reply i out) =
     (if i < length (frames sys) \<and> f_pc (frames sys ! i) = InFlight
      then Some (set_frame sys i ((frames sys ! i)\<lparr>f_pc := Deferred (exchange_result decode out)\<rparr>))
      else None)"
| "pool_step decode sys (Release i) =
     (if i < length (frames sys) \<and> 0 < semaphore sys
      then (case f_pc (frames sys ! i) of
              Deferred r \<Rightarrow>
                Some (set_frame (sys\<lparr>semaphore := semaphore sys - 1\<rparr>) i
                        ((frames sys ! i)\<lparr>f_pc := Returned r\<rparr>))
            | _ \<Rightarrow> None)
      else None)"

text \<open>A schedule is a list of steps; \<open>None\<close> when a step of it cannot be taken.\<close>

fun pool_run ::
  "(string \<Rightarrow> Event list option) \<Rightarrow> pool_sys \<Rightarrow> pool_action list \<Rightarrow> pool_sys option" where
  "pool_run decode sys [] = Some sys"
| "pool_run decode sys (a # as) =
     (case pool_step decode sys a of None \<Rightarrow> None | Some sys' \<Rightarrow> pool_run decode sys' as)"

text \<open>A call holds a permit from the send into the semaphore to the deferred receive.\<close>

fun holds_permit :: "pc \<Rightarrow> bool" where
  "holds_permit AtSelect = False"
| "holds_permit (Returned r) = False"
| "holds_permit _ = True"

definition permits_held :: "pool_sys \<Rightarrow> nat" where
  "permits_held sys = length (filter (\<lambda>fr. holds_permit (f_pc fr)) (frames sys))"

definition in_flight :: "pool_sys \<Rightarrow> nat" where
  "in_flight sys = length (filter (\<lambda>fr. f_pc fr = InFlight) (frames sys))"

text \<open>The steps of one call alone, as \<open>env\<close> decides them.\<close>

definition frame_script :: "nat \<Rightarrow> fetch_env \<Rightarrow> pool_action list" where
  "frame_script i env =
     (case permit env of
        ContextDone err \<Rightarrow> [CtxFires i err]
      | PermitAcquired \<Rightarrow>
          [Acquire i, Clamp i, SendRequest i (url_ok env)]
          @ (if url_ok env then [Reply i (outcome env)] else [])
          @ [Release i])"

text \<open>
  Invariants of the pool with its calls: the length of the semaphore is the number of calls
  holding a permit and is at most \<open>workers\<close>; the variable \<open>limit\<close> of a call is the argument
  until the clamp and the clamped value from there to the request; every request sent carries
  the values of the call that sent it, with the clamped limit.
\<close>

definition pool_inv :: "LaravelUpstreamPool \<Rightarrow> pool_sys \<Rightarrow> bool" where
  "pool_inv p sys \<longleftrightarrow>
     pool sys = p \<and> semaphore sys = permits_held sys \<and> semaphore sys \<le> workers p"

definition limit_inv :: "LaravelUpstreamPool \<Rightarrow> pool_sys \<Rightarrow> bool" where
  "limit_inv p sys \<longleftrightarrow>
     pool sys = p
     \<and> (\<forall>i<length (frames sys).
          (f_pc (frames sys ! i) = AtSelect \<or> f_pc (frames sys ! i) = HoldingPermit
             \<longrightarrow> f_limit (frames sys ! i) = arg_limit (frames sys ! i))
          \<and> (f_pc (frames sys ! i) = Clamped \<or> f_pc (frames sys ! i) = InFlight
             \<longrightarrow> f_limit (frames sys ! i) = min (arg_limit (frames sys ! i)) (maxLimit p)))"

definition sent_inv :: "LaravelUpstreamPool \<Rightarrow> pool_sys \<Rightarrow> bool" where
  "sent_inv p sys \<longleftrightarrow>
     (\<forall>i r. (i, r) \<in> set (sent sys) \<longrightarrow>
        i < length (frames sys)
        \<and> r = make_request p (f_channelID (frames sys ! i)) (f_offset (frames sys ! i))
                (min (arg_limit (frames sys ! i)) (maxLimit p)))"

text \<open>A schedule for the examples, and the state it leads to.\<close>

definition sched_two :: "pool_action list" where
  "sched_two = [Call ''a'' 0 500, Call ''b'' 7 10, Call ''c'' 0 100, Acquire 0, Acquire 2,
                Clamp 0, SendRequest 0 True]"

definition sys_two :: pool_sys where
  "sys_two =
     \<lparr>pool = pool_100, semaphore = 2,
      frames = [\<lparr>f_channelID = ''a'', f_offset = 0, arg_limit = 500, f_limit = 100, f_pc = InFlight\<rparr>,
                \<lparr>f_channelID = ''b'', f_offset = 7, arg_limit = 10, f_limit = 10, f_pc = AtSelect\<rparr>,
                \<lparr>f_channelID = ''c'', f_offset = 0, arg_limit = 100, f_limit = 100, f_pc = HoldingPermit\<rparr>],
      sent = [(0, \<lparr>req_addr = ''http://laravel'', req_channel_id = ''a'', req_secret = ''s3'',
                   req_offset = 0, req_limit = 100\<rparr>)]\<rparr>"

definition sys_deferred :: pool_sys where
  "sys_deferred =
     \<lparr>pool = pool_100, semaphore = 2,
      frames = [\<lparr>f_channelID = ''a'', f_offset = 0, arg_limit = 500, f_limit = 100,
                 f_pc = Deferred (Inl (UnexpectedStatus 503 ''busy''))\<rparr>,
                \<lparr>f_channelID = ''b'', f_offset = 7, arg_limit = 10, f_limit = 10, f_pc = AtSelect\<rparr>,
                \<lparr>f_channelID = ''c'', f_offset = 0, arg_limit = 100, f_limit = 100, f_pc = HoldingPermit\<rparr>],
      sent = [(0, \<lparr>req_addr = ''http://laravel'', req_channel_id = ''a'', req_secret = ''s3'',
                   req_offset = 0, req_limit = 100\<rparr>)]\<rparr>"

section \<open>Calls on the registry that interleave\<close>

text \<open>
  A call of \<open>handleMessage\<close>, \<open>Unsubscribe\<close> or \<open>Subscribe\<close> in progress, by the statement it
  has reached. A sweep waits for \<open>mu.RLock\<close>, then holds the read lock with the handlers its
  loop has still to visit. \<open>Unsubscribe\<close> and \<open>Subscribe\<close> wait for \<open>mu.Lock\<close>, hold the
  write lock before their body, and hold it after their body until the deferred \<open>Unlock\<close>.
\<close>

datatype rthread =
    SweepWaiting EventNotification
  | Sweeping EventNotification "chan list"
  | UnsubWaiting string chan
  | UnsubLocked string chan
  | UnsubUnlocking string chan
  | SubWaiting string
  | SubLocked string
  | SubUnlocking string chan
  | Finished

text \<open>
  What is observed of the calls, in order: \<open>Subscribe\<close> has returned a queue, \<open>Unsubscribe\<close>
  has returned, and a sweep has run its select on a queue (the send, or the default).
\<close>

datatype revent =
    SubscribeReturned string chan
  | UnsubscribeReturned string chan
  | SendAttempt chan

text \<open>
  The registry with its lock \<open>mu\<close> (a \<open>sync.RWMutex\<close>: the number of read locks held, and
  whether the write lock is held), the calls in progress, and the events so far.
\<close>

record registry_sys =
  reg :: Subscriber
  readers :: nat
  writer :: bool
  threads :: "rthread list"
  trace :: "revent list"

definition registry_init :: registry_sys where
  "registry_init = \<lparr>reg = NewSubscriber, readers = 0, writer = False, threads = [], trace = []\<rparr>"

text \<open>
  The steps: a goroutine calls one of the three functions; the owner of a queue receives
  from it; the call with index \<open>i\<close> takes its next step.
\<close>

datatype ract =
    StartHandleMessage string
  | StartSubscribe string
  | StartUnsubscribe string chan
  | Receive chan
  | Advance nat

datatype step_result = NotEnabled | Panic panic | Next registry_sys

text \<open>
  The next step of call \<open>i\<close>, which is at \<open>t\<close>. \<open>RLock\<close> waits while the write lock is held,
  \<open>Lock\<close> while any lock is held. A sweep runs its select on one handler per step. The
  bodies of \<open>Unsubscribe\<close> and \<open>Subscribe\<close> run under the write lock in one step each.
\<close>

fun advance :: "registry_sys \<Rightarrow> nat \<Rightarrow> rthread \<Rightarrow> step_result" where
  "advance sys i (SweepWaiting n) =
     (if writer sys then NotEnabled
      else Next (sys\<lparr>readers := readers sys + 1,
                     threads := (threads sys)
                        [i := Sweeping n (lookup_handlers (reg sys) (ChannelID n))]\<rparr>))"
| "advance sys i (Sweeping n []) =
     Next (sys\<lparr>readers := readers sys - 1, threads := (threads sys)[i := Finished]\<rparr>)"
| "advance sys i (Sweeping n (h # hs)) =
     (case try_send h n (chans (reg sys)) of
        Inl e \<Rightarrow> Panic e
      | Inr cs \<Rightarrow>
          Next (sys\<lparr>reg := (reg sys)\<lparr>chans := cs\<rparr>,
                    threads := (threads sys)[i := Sweeping n hs],
                    trace := trace sys @ [SendAttempt h]\<rparr>))"
| "advance sys i (UnsubWaiting channelID ch) =
     (if writer sys \<or> 0 < readers sys then NotEnabled
      else Next (sys\<lparr>writer := True, threads := (threads sys)[i := UnsubLocked channelID ch]\<rparr>))"
| "advance sys i (UnsubLocked channelID ch) =
     (case Unsubscribe channelID ch (reg sys) of
        Inl e \<Rightarrow> Panic e
      | Inr r \<Rightarrow>
          Next (sys\<lparr>reg := r, threads := (threads sys)[i := UnsubUnlocking channelID ch]\<rparr>))"
| "advance sys i (UnsubUnlocking channelID ch) =
     Next (sys\<lparr>writer := False, threads := (threads sys)[i := Finished],
               trace := trace sys @ [UnsubscribeReturned channelID ch]\<rparr>)"
| "advance sys i (SubWaiting channelID) =
     (if writer sys \<or> 0 < readers sys then NotEnabled
      else Next (sys\<lparr>writer := True, threads := (threads sys)[i := SubLocked channelID]\<rparr>))"
| "advance sys i (SubLocked channelID) =
     (case Subscribe channelID (reg sys) of
        (ch, r) \<Rightarrow>
          Next (sys\<lparr>reg := r, threads := (threads sys)[i := SubUnlocking channelID ch]\<rparr>))"
| "advance sys i (SubUnlocking channelID ch) =
     Next (sys\<lparr>writer := False, threads := (threads sys)[i := Finished],
               trace := trace sys @ [SubscribeReturned channelID ch]\<rparr>)"
| "advance sys i Finished = NotEnabled"

text \<open>
  A receive takes the oldest item of a queue that holds one (on an empty queue the receiver
  waits).
\<close>

definition receive :: "chan \<Rightarrow> chanstate list \<Rightarrow> chanstate list option" where
  "receive ch cs =
     (if ch < length cs \<and> buf (cs ! ch) \<noteq> []
      then Some (cs[ch := (cs ! ch)\<lparr>buf := tl (buf (cs ! ch))\<rparr>])
      else None)"

fun registry_step ::
  "(string \<Rightarrow> EventNotification option) \<Rightarrow> registry_sys \<Rightarrow> ract \<Rightarrow> step_result" where
  "registry_step unmarshal sys (StartHandleMessage payload) =
     Next (sys\<lparr>threads := threads sys @
              [case unmarshal payload of None \<Rightarrow> Finished | Some n \<Rightarrow> SweepWaiting n]\<rparr>)"
| "registry_step unmarshal sys (StartSubscribe channelID) =
     Next (sys\<lparr>threads := threads sys @ [SubWaiting channelID]\<rparr>)"
| "registry_step unmarshal sys (StartUnsubscribe channelID ch) =
     Next (sys\<lparr>threads := threads sys @ [UnsubWaiting channelID ch]\<rparr>)"
| "registry_step unmarshal sys (Receive ch) =
     (case receive ch (chans (reg sys)) of
        None \<Rightarrow> NotEnabled
      | Some cs \<Rightarrow> Next (sys\<lparr>reg := (reg sys)\<lparr>chans := cs\<rparr>\<rparr>))"
| "registry_step unmarshal sys (Advance i) =
     (if i < length (threads sys) then advance sys i (threads sys ! i) else NotEnabled)"

text \<open>A schedule is a list of steps; it stops at the first step that cannot be taken.\<close>

fun registry_run ::
  "(string \<Rightarrow> EventNotification option) \<Rightarrow> registry_sys \<Rightarrow> ract list \<Rightarrow> step_result" where
  "registry_run unmarshal sys [] = Next sys"
| "registry_run unmarshal sys (a # as) =
     (case registry_step unmarshal sys a of
        Next sys' \<Rightarrow> registry_run unmarshal sys' as
      | r \<Rightarrow> r)"

text \<open>
  The invariant of the interleaving: the lock counts the calls that hold it, a sweep has
  only registered queues left to visit, a queue returned by \<open>Subscribe\<close> is registered or
  closed, and a queue whose \<open>Unsubscribe\<close> has returned is closed with no send after.
\<close>

fun is_sweeping :: "rthread \<Rightarrow> bool" where
  "is_sweeping (Sweeping n hs) = True"
| "is_sweeping _ = False"

fun is_locked :: "rthread \<Rightarrow> bool" where
  "is_locked (UnsubLocked c ch) = True"
| "is_locked (UnsubUnlocking c ch) = True"
| "is_locked (SubLocked c) = True"
| "is_locked (SubUnlocking c ch) = True"
| "is_locked _ = False"

definition lock_inv :: "registry_sys \<Rightarrow> bool" where
  "lock_inv sys \<longleftrightarrow>
     readers sys = length (filter is_sweeping (threads sys))
     \<and> (if writer sys then 1 else 0) = length (filter is_locked (threads sys))
     \<and> (writer sys \<longrightarrow> readers sys = 0)"

definition live_or_closed :: "Subscriber \<Rightarrow> string \<Rightarrow> chan \<Rightarrow> bool" where
  "live_or_closed r c q \<longleftrightarrow>
     q \<in> set (lookup_handlers r c) \<or> (q < length (chans r) \<and> closed (chans r ! q))"

fun thread_ok :: "Subscriber \<Rightarrow> rthread \<Rightarrow> bool" where
  "thread_ok r (Sweeping n hs) = (set hs \<subseteq> set (lookup_handlers r (ChannelID n)))"
| "thread_ok r (SubUnlocking c ch) = (ch \<in> set (lookup_handlers r c))"
| "thread_ok r (UnsubUnlocking c ch) = (ch \<notin> set (lookup_handlers r c))"
| "thread_ok r _ = True"

definition trace_inv :: "registry_sys \<Rightarrow> bool" where
  "trace_inv sys \<longleftrightarrow>
     (\<forall>c q. SubscribeReturned c q \<in> set (trace sys) \<longrightarrow> live_or_closed (reg sys) c q)
     \<and> (\<forall>pre post c q.
          trace sys = pre @ UnsubscribeReturned c q # post \<and> SubscribeReturned c q \<in> set pre
            \<longrightarrow> q < length (chans (reg sys)) \<and> closed (chans (reg sys) ! q)
                \<and> SendAttempt q \<notin> set post)"

definition sys_inv :: "registry_sys \<Rightarrow> bool" where
  "sys_inv sys \<longleftrightarrow>
     registry_inv (reg sys) \<and> lock_inv sys
     \<and> (\<forall>t\<in>set (threads sys). thread_ok (reg sys) t) \<and> trace_inv sys"

text \<open>
  Two relations between a registry and a later one, for the proofs: the later one has the
  same entries, as many queues and the same queues closed (only buffers differ); and
  whatever was registered or closed before is registered or closed after.
\<close>

definition same_shape :: "Subscriber \<Rightarrow> Subscriber \<Rightarrow> bool" where
  "same_shape r r' \<longleftrightarrow>
     handlers r' = handlers r \<and> length (chans r') = length (chans r)
     \<and> (\<forall>q<length (chans r). closed (chans r' ! q) = closed (chans r ! q))"

definition grows :: "Subscriber \<Rightarrow> Subscriber \<Rightarrow> bool" where
  "grows r r' \<longleftrightarrow>
     (\<forall>c q. live_or_closed r c q \<longrightarrow> live_or_closed r' c q)
     \<and> (\<forall>q. q < length (chans r) \<and> closed (chans r ! q)
            \<longrightarrow> q < length (chans r') \<and> closed (chans r' ! q))"

text \<open>
  A schedule for the examples (a subscription, a sweep, the unsubscription, a second
  subscription and a second sweep), and the state it leads to.
\<close>

definition sched_c1 :: "ract list" where
  "sched_c1 = [StartSubscribe ''a'', Advance 0, Advance 0, Advance 0,
               StartHandleMessage ''a'', Advance 1, Advance 1, Advance 1,
               StartUnsubscribe ''a'' 0, Advance 2, Advance 2, Advance 2,
               StartSubscribe ''a'', Advance 3, Advance 3, Advance 3,
               StartHandleMessage ''a'', Advance 4, Advance 4, Advance 4]"

definition final_c1 :: registry_sys where
  "final_c1 =
     \<lparr>reg = \<lparr>handlers = [''a'' \<mapsto> [1]],
              chans = [\<lparr>buf = [note_a], cap = 10, closed = True\<rparr>,
                       \<lparr>buf = [note_a], cap = 10, closed = False\<rparr>]\<rparr>,
      readers = 0, writer = False,
      threads = [Finished, Finished, Finished, Finished, Finished],
      trace = [SubscribeReturned ''a'' 0, SendAttempt 0, UnsubscribeReturned ''a'' 0,
               SubscribeReturned ''a'' 1, SendAttempt 1]\<rparr>"

section \<open>Properties of the registry\<close>

lemma remove_handler_None: "remove_handler ch hs = None \<longleftrightarrow> ch \<notin> set hs"
  by (induction hs) (auto split: option.splits)

lemma remove_handler_Some: "remove_handler ch hs = Some hs' \<Longrightarrow> ch \<in> set hs \<and> hs' = remove1 ch hs"
  by (induction hs arbitrary: hs') (auto split: option.splits if_splits)

lemma lookup_handlers_simps:
  "handlers s c = None \<Longrightarrow> lookup_handlers s c = []"
  "handlers s c = Some hs \<Longrightarrow> lookup_handlers s c = hs"
  by (simp_all add: lookup_handlers_def)

lemma inv_lookup:
  assumes "registry_inv s"
  shows "distinct (lookup_handlers s c)"
    and "q \<in> set (lookup_handlers s c) \<Longrightarrow> q < length (chans s) \<and> \<not> closed (chans s ! q)"
    and "c \<noteq> c' \<Longrightarrow> set (lookup_handlers s c) \<inter> set (lookup_handlers s c') = {}"
    and "handlers s c \<noteq> Some []"
proof -
  show "distinct (lookup_handlers s c)"
    using assms by (cases "handlers s c") (auto simp: registry_inv_def lookup_handlers_def)
  show "q \<in> set (lookup_handlers s c) \<Longrightarrow> q < length (chans s) \<and> \<not> closed (chans s ! q)"
    using assms by (cases "handlers s c") (auto simp: registry_inv_def lookup_handlers_def)
  show "c \<noteq> c' \<Longrightarrow> set (lookup_handlers s c) \<inter> set (lookup_handlers s c') = {}"
  proof (cases "handlers s c")
    case None
    then show ?thesis by (simp add: lookup_handlers_def)
  next
    case (Some hs)
    show "c \<noteq> c' \<Longrightarrow> ?thesis"
    proof (cases "handlers s c'")
      case None
      then show ?thesis by (simp add: lookup_handlers_def)
    next
      case (Some hs')
      assume "c \<noteq> c'"
      with assms \<open>handlers s c = Some hs\<close> Some have "set hs \<inter> set hs' = {}"
        unfolding registry_inv_def by blast
      with \<open>handlers s c = Some hs\<close> Some show ?thesis by (simp add: lookup_handlers_def)
    qed
  qed
  show "handlers s c \<noteq> Some []"
    using assms by (auto simp: registry_inv_def)
qed

lemma try_send_ok:
  assumes "h < length cs" "\<not> closed (cs ! h)"
  shows "\<exists>cs'. try_send h n cs = Inr cs' \<and> length cs' = length cs
     \<and> (\<forall>q<length cs. closed (cs' ! q) = closed (cs ! q))
     \<and> (\<forall>q<length cs. q \<noteq> h \<longrightarrow> cs' ! q = cs ! q)
     \<and> cs' ! h = (if length (buf (cs ! h)) < cap (cs ! h)
                   then (cs ! h)\<lparr>buf := buf (cs ! h) @ [n]\<rparr> else cs ! h)"
  using assms by (auto simp: try_send_def nth_list_update)


lemma Unsubscribe_absent:
  assumes "registry_inv s" "ch \<notin> set (lookup_handlers s c)"
  shows "Unsubscribe c ch s = Inr s"
proof -
  have rm: "remove_handler ch (lookup_handlers s c) = None"
    using assms(2) by (simp add: remove_handler_None)
  have "delete_if_empty c s = s"
  proof (cases "handlers s c")
    case None
    then have "(handlers s)(c := None) = handlers s" by (simp add: fun_upd_idem)
    then show ?thesis by (simp add: delete_if_empty_def)
  next
    case (Some hs)
    with inv_lookup(4)[OF assms(1), of c] have "hs \<noteq> []" by auto
    with Some show ?thesis by (simp add: delete_if_empty_def lookup_handlers_def)
  qed
  with rm show ?thesis by (simp add: Unsubscribe_def)
qed

lemma Unsubscribe_present:
  assumes "registry_inv s" "ch \<in> set (lookup_handlers s c)"
  shows "Unsubscribe c ch s = Inr (removed_state c ch s)"
proof -
  obtain hs' where rm: "remove_handler ch (lookup_handlers s c) = Some hs'"
    using assms(2) remove_handler_None[of ch "lookup_handlers s c"] by (cases "remove_handler ch (lookup_handlers s c)") auto
  then have hs': "hs' = remove1 ch (lookup_handlers s c)" by (simp add: remove_handler_Some)
  have op: "ch < length (chans s)" "\<not> closed (chans s ! ch)"
    using inv_lookup(2)[OF assms] by auto
  then have cl: "close_chan ch (chans s) = Inr ((chans s)[ch := (chans s ! ch)\<lparr>closed := True\<rparr>])"
    by (simp add: close_chan_def)
  show ?thesis
    unfolding Unsubscribe_def rm cl hs' removed_state_def
    by (simp add: delete_if_empty_def lookup_handlers_def)
qed

lemma lookup_removed_state:
  "lookup_handlers (removed_state c ch s) c' =
     (if c' = c then remove1 ch (lookup_handlers s c) else lookup_handlers s c')"
  by (simp add: removed_state_def lookup_handlers_def)

lemma handlers_removed_state:
  "handlers (removed_state c ch s) c' = Some hs \<Longrightarrow>
     (if c' = c then hs = remove1 ch (lookup_handlers s c) \<and> hs \<noteq> [] else handlers s c' = Some hs)"
  by (auto simp: removed_state_def split: if_splits)

lemma inv_removed_state:
  assumes "registry_inv s" "ch \<in> set (lookup_handlers s c)"
  shows "registry_inv (removed_state c ch s)"
  unfolding registry_inv_def
proof (intro conjI allI impI)
  have len: "length (chans (removed_state c ch s)) = length (chans s)"
    by (simp add: removed_state_def)
  have cl: "\<And>q. q < length (chans s) \<Longrightarrow> q \<noteq> ch \<Longrightarrow>
      closed (chans (removed_state c ch s) ! q) = closed (chans s ! q)"
    by (simp add: removed_state_def)
  have d: "distinct (lookup_handlers s c)" by (rule inv_lookup(1)[OF assms(1)])
  { fix c' hs assume h: "handlers (removed_state c ch s) c' = Some hs"
    from handlers_removed_state[OF h]
    have eq: "if c' = c then hs = remove1 ch (lookup_handlers s c) \<and> hs \<noteq> [] else handlers s c' = Some hs"
      by auto
    have ne: "hs \<noteq> []" using eq inv_lookup(4)[OF assms(1), of c'] by (auto split: if_splits)
    have lk: "c' \<noteq> c \<Longrightarrow> lookup_handlers s c' = hs" using eq by (simp add: lookup_handlers_def)
    have sub: "set hs \<subseteq> set (lookup_handlers s c')" and nch: "ch \<notin> set hs" and dh: "distinct hs"
    proof -
      show "set hs \<subseteq> set (lookup_handlers s c')"
      proof (cases "c' = c")
        case True
        then show ?thesis using eq set_remove1_subset[of ch "lookup_handlers s c"] by simp
      next
        case False
        then show ?thesis using lk by simp
      qed
      show "ch \<notin> set hs"
      proof (cases "c' = c")
        case True
        then show ?thesis using eq d by simp
      next
        case False
        then have "lookup_handlers s c' = hs" using eq by (simp add: lookup_handlers_def)
        then show ?thesis using inv_lookup(3)[OF assms(1), of c c'] False assms(2) by auto
      qed
      show "distinct hs"
      proof (cases "c' = c")
        case True
        then show ?thesis using eq d by simp
      next
        case False
        then show ?thesis using lk inv_lookup(1)[OF assms(1), of c'] by simp
      qed
    qed
    show "hs \<noteq> []" by (rule ne)
    show "distinct hs" by (rule dh)
    show "\<forall>q\<in>set hs. q < length (chans (removed_state c ch s)) \<and> \<not> closed (chans (removed_state c ch s) ! q)"
    proof
      fix q assume q: "q \<in> set hs"
      then have "q \<in> set (lookup_handlers s c')" using sub by auto
      then have "q < length (chans s)" "\<not> closed (chans s ! q)"
        using inv_lookup(2)[OF assms(1)] by auto
      moreover have "q \<noteq> ch" using q nch by auto
      ultimately show "q < length (chans (removed_state c ch s)) \<and> \<not> closed (chans (removed_state c ch s) ! q)"
        using len cl by simp
    qed
  }
  fix c1 c2 hs1 hs2
  assume a: "handlers (removed_state c ch s) c1 = Some hs1 \<and> handlers (removed_state c ch s) c2 = Some hs2 \<and> c1 \<noteq> c2"
  have sb: "\<And>c' hs. handlers (removed_state c ch s) c' = Some hs \<Longrightarrow> set hs \<subseteq> set (lookup_handlers s c')"
  proof -
    fix c' hs assume h: "handlers (removed_state c ch s) c' = Some hs"
    show "set hs \<subseteq> set (lookup_handlers s c')"
    proof (cases "c' = c")
      case True
      then show ?thesis
        using handlers_removed_state[OF h] set_remove1_subset[of ch "lookup_handlers s c"] by simp
    next
      case False
      then show ?thesis using handlers_removed_state[OF h] by (simp add: lookup_handlers_def)
    qed
  qed
  have s1: "set hs1 \<subseteq> set (lookup_handlers s c1)" using sb a by blast
  have s2: "set hs2 \<subseteq> set (lookup_handlers s c2)" using sb a by blast
  show "set hs1 \<inter> set hs2 = {}"
    using s1 s2 inv_lookup(3)[OF assms(1), of c1 c2] a by blast
qed

lemma inv_Unsubscribe:
  assumes "registry_inv s" "Unsubscribe c ch s = Inr s'"
  shows "registry_inv s'"
proof (cases "ch \<in> set (lookup_handlers s c)")
  case True
  then show ?thesis using assms Unsubscribe_present inv_removed_state by auto
next
  case False
  then show ?thesis using assms Unsubscribe_absent by auto
qed

lemma inv_New: "registry_inv NewSubscriber"
  by (simp add: registry_inv_def NewSubscriber_def)

lemma inv_Subscribe:
  assumes "registry_inv s"
  shows "registry_inv (snd (Subscribe c s))"
  unfolding registry_inv_def
proof (intro conjI allI impI)
  let ?s' = "snd (Subscribe c s)"
  let ?ch = "length (chans s)"
  have hd: "\<And>c'. handlers ?s' c' = (if c' = c then Some (lookup_handlers s c @ [?ch]) else handlers s c')"
    by (simp add: Subscribe_def Let_def)
  have ch: "chans ?s' = chans s @ [\<lparr>buf = [], cap = 10, closed = False\<rparr>]"
    by (simp add: Subscribe_def Let_def)
  have old: "\<And>c' q. q \<in> set (lookup_handlers s c') \<Longrightarrow> q < ?ch \<and> \<not> closed (chans s ! q)"
    using inv_lookup(2)[OF assms] by blast
  { fix c' hs assume h: "handlers ?s' c' = Some hs"
    show "hs \<noteq> []" using h hd[of c'] inv_lookup(4)[OF assms, of c'] by (auto split: if_splits)
    show "distinct hs"
    proof (cases "c' = c")
      case True
      then have "hs = lookup_handlers s c @ [?ch]" using h hd by simp
      then show ?thesis using inv_lookup(1)[OF assms, of c] old[of ?ch c] by auto
    next
      case False
      then have "lookup_handlers s c' = hs" using h hd by (simp add: lookup_handlers_def)
      then show ?thesis using inv_lookup(1)[OF assms, of c'] by simp
    qed
    show "\<forall>q\<in>set hs. q < length (chans ?s') \<and> \<not> closed (chans ?s' ! q)"
    proof
      fix q assume q: "q \<in> set hs"
      show "q < length (chans ?s') \<and> \<not> closed (chans ?s' ! q)"
      proof (cases "q = ?ch")
        case True
        then show ?thesis by (simp add: ch)
      next
        case False
        then have "q \<in> set (lookup_handlers s c')"
          using q h hd[of c'] by (auto simp: lookup_handlers_def split: if_splits)
        then show ?thesis using old[of q c'] by (simp add: ch nth_append)
      qed
    qed
  }
  fix c1 c2 hs1 hs2
  assume a: "handlers ?s' c1 = Some hs1 \<and> handlers ?s' c2 = Some hs2 \<and> c1 \<noteq> c2"
  have s1: "set hs1 \<subseteq> set (lookup_handlers s c1) \<union> (if c1 = c then {?ch} else {})"
    using a hd[of c1] by (auto simp: lookup_handlers_def split: if_splits)
  have s2: "set hs2 \<subseteq> set (lookup_handlers s c2) \<union> (if c2 = c then {?ch} else {})"
    using a hd[of c2] by (auto simp: lookup_handlers_def split: if_splits)
  have n1: "?ch \<notin> set (lookup_handlers s c1)" using old[of ?ch c1] by auto
  have n2: "?ch \<notin> set (lookup_handlers s c2)" using old[of ?ch c2] by auto
  have dj: "set (lookup_handlers s c1) \<inter> set (lookup_handlers s c2) = {}"
    using inv_lookup(3)[OF assms, of c1 c2] a by simp
  show "set hs1 \<inter> set hs2 = {}"
  proof (rule ccontr)
    assume "set hs1 \<inter> set hs2 \<noteq> {}"
    then obtain q where q: "q \<in> set hs1" "q \<in> set hs2" by auto
    show False
    proof (cases "q = ?ch")
      case True
      then have "c1 = c" "c2 = c" using q s1 s2 n1 n2 by (auto split: if_splits)
      then show False using a by simp
    next
      case False
      then have "q \<in> set (lookup_handlers s c1)" "q \<in> set (lookup_handlers s c2)"
        using q s1 s2 by (auto split: if_splits)
      then show False using dj by auto
    qed
  qed
qed















section \<open>Properties of the feed loop and of the reconnect supervisor\<close>








section \<open>Properties of a fetch and of a poll\<close>

lemma Unsubscribe_after_Subscribe:
  "\<exists>s2. Unsubscribe channelID (fst (Subscribe channelID s)) (snd (Subscribe channelID s)) = Inr s2"
proof -
  let ?ch = "length (chans s)"
  let ?s1 = "snd (Subscribe channelID s)"
  have lk: "lookup_handlers ?s1 channelID = lookup_handlers s channelID @ [?ch]"
    by (simp add: Subscribe_def Let_def lookup_handlers_def)
  have "?ch \<in> set (lookup_handlers ?s1 channelID)" unfolding lk by simp
  then obtain hs' where rm: "remove_handler ?ch (lookup_handlers ?s1 channelID) = Some hs'"
    using remove_handler_None[of ?ch "lookup_handlers ?s1 channelID"]
    by (cases "remove_handler ?ch (lookup_handlers ?s1 channelID)") auto
  have "\<exists>cs. close_chan ?ch (chans ?s1) = Inr cs"
    by (simp add: close_chan_def Subscribe_def Let_def)
  then obtain cs where cl: "close_chan ?ch (chans ?s1) = Inr cs" by blast
  have f: "fst (Subscribe channelID s) = ?ch" by (simp add: Subscribe_def Let_def)
  show ?thesis unfolding f Unsubscribe_def rm cl by simp
qed

text \<open>
  Claim C3. A poll with a valid token whose first fetch returns no event, and whose select
  takes the case of the poll context being done (the deadline passed with no notification
  received), writes status 200 with an empty event list, never an error; the deferred
  \<open>Unsubscribe\<close> of the queue just made does not panic.
\<close>

theorem poll_deadline_empty_success:
  assumes "Query q ''token'' \<noteq> []"
    and "ValidateToken l (Query q ''token'') = Some channelID"
    and "fst (GetEvents (upstreamPool h) (Decode l) env1 channelID (poll_offset l q) (poll_limit l h q))
           = Inr []"
  shows "\<exists>reqs s'. GetUpdates l h q env1 PollContextDone env2 s
                     = Inr (JSON 200 (EventsBody []), reqs, s')"
proof -
  obtain reqs where g: "GetEvents (upstreamPool h) (Decode l) env1 channelID (poll_offset l q) (poll_limit l h q)
           = (Inr [], reqs)"
    using assms(3) by (cases "GetEvents (upstreamPool h) (Decode l) env1 channelID (poll_offset l q) (poll_limit l h q)") simp
  obtain ch s1 where sb: "Subscribe channelID s = (ch, s1)" by (cases "Subscribe channelID s")
  obtain s2 where us: "Unsubscribe channelID ch s1 = Inr s2"
    using Unsubscribe_after_Subscribe[of channelID s] sb by auto
  show ?thesis
    using assms(1,2) g sb us by (simp add: GetUpdates_def Let_def)
qed

text \<open>
  Claim C7. A poll with a valid token whose first fetch returns at least one event writes
  status 200 with exactly these events, sends no further request, and returns the registry
  it was given: no queue is made and no registration is added.
\<close>

theorem immediate_events_no_registration:
  assumes "Query q ''token'' \<noteq> []"
    and "ValidateToken l (Query q ''token'') = Some channelID"
    and "GetEvents (upstreamPool h) (Decode l) env1 channelID (poll_offset l q) (poll_limit l h q)
           = (Inr events, reqs)"
    and "events \<noteq> []"
  shows "GetUpdates l h q env1 wk env2 s = Inr (JSON 200 (EventsBody events), reqs, s)"
  using assms by (simp add: GetUpdates_def Let_def)

lemma query_ex_token: "Query query_ex ''token'' = ''tok''"
  by (simp add: Query_def query_ex_def)

lemma query_ex_params: "poll_offset lib_ex query_ex = 0" "poll_limit lib_ex handlers_100 query_ex = 100"
  by (simp_all add: poll_offset_def poll_limit_def DefaultQuery_def query_ex_def lib_ex_def handlers_100_def)

lemma GetEvents_empty_ex:
  "GetEvents (upstreamPool handlers_100) (Decode lib_ex) env_empty ''a'' 0 100
     = (Inr [], [make_request pool_100 ''a'' 0 100])"
  by (simp add: GetEvents_def env_empty_def handlers_100_def exchange_result_def lib_ex_def
      clamp_limit_def pool_100_def)

lemma GetEvents_one_ex:
  "GetEvents (upstreamPool handlers_100) (Decode lib_ex) env_one ''a'' 0 100
     = (Inr [event_5], [make_request pool_100 ''a'' 0 100])"
  by (simp add: GetEvents_def env_one_def handlers_100_def exchange_result_def lib_ex_def
      clamp_limit_def pool_100_def)

theorem poll_deadline_empty_success_witness:
  "Query query_ex ''token'' \<noteq> []
   \<and> ValidateToken lib_ex (Query query_ex ''token'') = Some ''a''
   \<and> fst (GetEvents (upstreamPool handlers_100) (Decode lib_ex) env_empty ''a''
             (poll_offset lib_ex query_ex) (poll_limit lib_ex handlers_100 query_ex)) = Inr []
   \<and> (\<exists>reqs s'. GetUpdates lib_ex handlers_100 query_ex env_empty PollContextDone env_one NewSubscriber
                  = Inr (JSON 200 (EventsBody []), reqs, s'))"
proof -
  have 1: "Query query_ex ''token'' \<noteq> []" by (simp add: query_ex_token)
  have 2: "ValidateToken lib_ex (Query query_ex ''token'') = Some ''a''"
    by (simp add: query_ex_token lib_ex_def)
  have 3: "fst (GetEvents (upstreamPool handlers_100) (Decode lib_ex) env_empty ''a''
             (poll_offset lib_ex query_ex) (poll_limit lib_ex handlers_100 query_ex)) = Inr []"
    by (simp add: query_ex_params GetEvents_empty_ex)
  from poll_deadline_empty_success[OF 1 2 3, of env_one NewSubscriber] 1 2 3
  show ?thesis by blast
qed

theorem immediate_events_no_registration_witness:
  "Query query_ex ''token'' \<noteq> []
   \<and> ValidateToken lib_ex (Query query_ex ''token'') = Some ''a''
   \<and> GetEvents (upstreamPool handlers_100) (Decode lib_ex) env_one ''a''
             (poll_offset lib_ex query_ex) (poll_limit lib_ex handlers_100 query_ex)
        = (Inr [event_5], [make_request pool_100 ''a'' 0 100])
   \<and> [event_5] \<noteq> []
   \<and> GetUpdates lib_ex handlers_100 query_ex env_one (Notified note_a) env_one two_channels
        = Inr (JSON 200 (EventsBody [event_5]), [make_request pool_100 ''a'' 0 100], two_channels)"
proof -
  have 1: "Query query_ex ''token'' \<noteq> []" by (simp add: query_ex_token)
  have 2: "ValidateToken lib_ex (Query query_ex ''token'') = Some ''a''"
    by (simp add: query_ex_token lib_ex_def)
  have 3: "GetEvents (upstreamPool handlers_100) (Decode lib_ex) env_one ''a''
             (poll_offset lib_ex query_ex) (poll_limit lib_ex handlers_100 query_ex)
        = (Inr [event_5], [make_request pool_100 ''a'' 0 100])"
    by (simp add: query_ex_params GetEvents_one_ex)
  have 4: "[event_5] \<noteq> []" by simp
  from immediate_events_no_registration[OF 1 2 3 4, of "Notified note_a" env_one two_channels] 1 2 3 4
  show ?thesis by blast
qed

section \<open>Properties of the pool\<close>

lemma count_update:
  "i < length xs \<Longrightarrow>
     length (filter P (xs[i := y])) + (if P (xs ! i) then 1 else 0)
       = length (filter P xs) + (if P y then 1 else 0)"
proof (induction xs arbitrary: i)
  case Nil
  then show ?case by simp
next
  case (Cons x xs)
  then show ?case by (cases i) auto
qed

lemma permits_held_set_frame:
  assumes "i < length (frames sys)"
  shows "permits_held (set_frame sys i fr) + (if holds_permit (f_pc (frames sys ! i)) then 1 else 0)
           = permits_held sys + (if holds_permit (f_pc fr) then 1 else 0)"
  unfolding permits_held_def set_frame_def
  using count_update[OF assms, of "\<lambda>fr. holds_permit (f_pc fr)" fr] by simp

lemma set_frame_simps:
  "pool (set_frame sys i fr) = pool sys"
  "semaphore (set_frame sys i fr) = semaphore sys"
  "sent (set_frame sys i fr) = sent sys"
  "frames (set_frame sys i fr) = (frames sys)[i := fr]"
  by (simp_all add: set_frame_def)

lemma permits_held_upd:
  "permits_held (sys\<lparr>semaphore := n\<rparr>) = permits_held sys"
  "permits_held (sys\<lparr>sent := xs\<rparr>) = permits_held sys"
  by (simp_all add: permits_held_def)

lemma pool_step_inv:
  assumes "pool_inv p sys" "pool_step decode sys a = Some sys'"
  shows "pool_inv p sys'"
proof (cases a)
  case (Call c off lim)
  then show ?thesis using assms by (auto simp: pool_inv_def permits_held_def)
next
  case (Acquire i)
  with assms(2) have g: "i < length (frames sys)" "f_pc (frames sys ! i) = AtSelect"
      "semaphore sys < workers (pool sys)"
    and s': "sys' = set_frame (sys\<lparr>semaphore := semaphore sys + 1\<rparr>) i
                   ((frames sys ! i)\<lparr>f_pc := HoldingPermit\<rparr>)"
    by (auto split: if_splits)
  have "permits_held sys' = permits_held sys + 1"
    using permits_held_set_frame[of i "sys\<lparr>semaphore := semaphore sys + 1\<rparr>" "(frames sys ! i)\<lparr>f_pc := HoldingPermit\<rparr>"]
      g s' by (simp add: permits_held_upd)
  then show ?thesis using assms(1) g s' by (simp add: pool_inv_def set_frame_simps)
next
  case (CtxFires i err)
  with assms(2) have g: "i < length (frames sys)" "f_pc (frames sys ! i) = AtSelect"
    and s': "sys' = set_frame sys i ((frames sys ! i)\<lparr>f_pc := Returned (Inl (CtxErr err))\<rparr>)"
    by (auto split: if_splits)
  have "permits_held sys' = permits_held sys"
    using permits_held_set_frame[of i sys "(frames sys ! i)\<lparr>f_pc := Returned (Inl (CtxErr err))\<rparr>"]
      g s' by simp
  then show ?thesis using assms(1) s' by (simp add: pool_inv_def set_frame_simps)
next
  case (Clamp i)
  with assms(2) have g: "i < length (frames sys)" "f_pc (frames sys ! i) = HoldingPermit"
    and s': "sys' = set_frame sys i
                   ((frames sys ! i)\<lparr>f_limit := clamp_limit (pool sys) (f_limit (frames sys ! i)),
                                      f_pc := Clamped\<rparr>)"
    by (auto split: if_splits)
  have "permits_held sys' = permits_held sys"
    using permits_held_set_frame[of i sys "(frames sys ! i)\<lparr>f_limit := clamp_limit (pool sys) (f_limit (frames sys ! i)),
                                      f_pc := Clamped\<rparr>"]
      g s' by simp
  then show ?thesis using assms(1) s' by (simp add: pool_inv_def set_frame_simps)
next
  case (SendRequest i ok)
  with assms(2) have g: "i < length (frames sys)" "f_pc (frames sys ! i) = Clamped"
    by (auto split: if_splits)
  show ?thesis
  proof (cases ok)
    case True
    let ?sys1 = "sys\<lparr>sent := sent sys @
                                 [(i, make_request (pool sys) (f_channelID (frames sys ! i))
                                        (f_offset (frames sys ! i)) (f_limit (frames sys ! i)))]\<rparr>"
    have s': "sys' = set_frame ?sys1 i ((frames sys ! i)\<lparr>f_pc := InFlight\<rparr>)"
      using assms(2) SendRequest g True by simp
    have "permits_held sys' = permits_held sys"
      using permits_held_set_frame[of i ?sys1 "(frames sys ! i)\<lparr>f_pc := InFlight\<rparr>"]
        g s' by (simp add: permits_held_upd)
    then show ?thesis using assms(1) s' by (simp add: pool_inv_def set_frame_simps)
  next
    case False
    have s': "sys' = set_frame sys i ((frames sys ! i)\<lparr>f_pc := Deferred (Inl CreateRequestFailed)\<rparr>)"
      using assms(2) SendRequest g False by simp
    have "permits_held sys' = permits_held sys"
      using permits_held_set_frame[of i sys "(frames sys ! i)\<lparr>f_pc := Deferred (Inl CreateRequestFailed)\<rparr>"]
        g s' by simp
    then show ?thesis using assms(1) s' by (simp add: pool_inv_def set_frame_simps)
  qed
next
  case (Reply i out)
  with assms(2) have g: "i < length (frames sys)" "f_pc (frames sys ! i) = InFlight"
    and s': "sys' = set_frame sys i ((frames sys ! i)\<lparr>f_pc := Deferred (exchange_result decode out)\<rparr>)"
    by (auto split: if_splits)
  have "permits_held sys' = permits_held sys"
    using permits_held_set_frame[of i sys "(frames sys ! i)\<lparr>f_pc := Deferred (exchange_result decode out)\<rparr>"]
      g s' by simp
  then show ?thesis using assms(1) s' by (simp add: pool_inv_def set_frame_simps)
next
  case (Release i)
  with assms(2) obtain r where g: "i < length (frames sys)" "0 < semaphore sys"
      "f_pc (frames sys ! i) = Deferred r"
    and s': "sys' = set_frame (sys\<lparr>semaphore := semaphore sys - 1\<rparr>) i
                        ((frames sys ! i)\<lparr>f_pc := Returned r\<rparr>)"
    by (auto split: if_splits pc.splits)
  have h: "permits_held sys' + 1 = permits_held sys"
    using permits_held_set_frame[of i "sys\<lparr>semaphore := semaphore sys - 1\<rparr>" "(frames sys ! i)\<lparr>f_pc := Returned r\<rparr>"]
      g s' by (simp add: permits_held_upd)
  have "semaphore sys' = semaphore sys - 1" "pool sys' = pool sys"
    using s' by (simp_all add: set_frame_simps)
  then show ?thesis using assms(1) g(2) h unfolding pool_inv_def by auto
qed

lemma pool_run_inv:
  "pool_inv p sys \<Longrightarrow> pool_run decode sys as = Some sys' \<Longrightarrow> pool_inv p sys'"
proof (induction as arbitrary: sys)
  case Nil
  then show ?case by simp
next
  case (Cons a as)
  then show ?case by (auto split: option.splits dest: pool_step_inv)
qed

lemma pool_init_inv: "pool_inv p (pool_init p)"
  by (simp add: pool_inv_def pool_init_def permits_held_def)

lemma filter_length_mono:
  "(\<And>x. P x \<Longrightarrow> Q x) \<Longrightarrow> length (filter P xs) \<le> length (filter Q xs)"
  by (induction xs) auto

lemma in_flight_le_held: "in_flight sys \<le> permits_held sys"
  unfolding in_flight_def permits_held_def
  by (rule filter_length_mono) simp

lemma deferred_can_release:
  assumes "pool_inv p sys" "i < length (frames sys)" "f_pc (frames sys ! i) = Deferred r"
  shows "\<exists>sys'. pool_step decode sys (Release i) = Some sys'
           \<and> semaphore sys' + 1 = semaphore sys \<and> f_pc (frames sys' ! i) = Returned r"
proof -
  have "holds_permit (f_pc (frames sys ! i))" by (simp add: assms(3))
  then have "0 < permits_held sys"
    unfolding permits_held_def
    using assms(2) by (metis (mono_tags, lifting) filter_empty_conv length_greater_0_conv nth_mem)
  then have "0 < semaphore sys" using assms(1) by (simp add: pool_inv_def)
  then show ?thesis using assms(2,3) by (simp add: set_frame_def)
qed

text \<open>
  Claim C6. In every state the pool reaches from \<open>NewLaravelUpstreamPool\<close>, by any schedule of
  steps of any number of calls, the calls waiting for a reply of the backend are at most
  \<open>workers\<close>; the permits out (sends into the semaphore not yet matched by a receive) are
  exactly the calls between their acquisition and their deferred release, so a call that has
  returned, by whatever way, holds none; the permits out are at most \<open>workers\<close>; and a call
  about to return any value, an error or the events, can always run its deferred release,
  which gives the permit back.
\<close>

theorem permits_bounded:
  assumes "pool_run decode (pool_init p) as = Some sys"
  shows "in_flight sys \<le> workers p \<and> permits_held sys = semaphore sys \<and> semaphore sys \<le> workers p
     \<and> (\<forall>i r. i < length (frames sys) \<and> f_pc (frames sys ! i) = Deferred r \<longrightarrow>
           (\<exists>sys'. pool_step decode sys (Release i) = Some sys'
              \<and> semaphore sys' + 1 = semaphore sys \<and> f_pc (frames sys' ! i) = Returned r))"
proof -
  have inv: "pool_inv p sys" using pool_run_inv[OF pool_init_inv assms] .
  then have "in_flight sys \<le> workers p \<and> permits_held sys = semaphore sys \<and> semaphore sys \<le> workers p"
    using in_flight_le_held[of sys] by (simp add: pool_inv_def)
  then show ?thesis using deferred_can_release[OF inv] by blast
qed

lemma clamp_limit_min: "clamp_limit p limit = min limit (maxLimit p)"
  by (simp add: clamp_limit_def min_def)

lemma pool_step_limit_inv:
  assumes "limit_inv p sys" "pool_step decode sys a = Some sys'"
  shows "limit_inv p sys'"
proof (cases a)
  case (Call c off lim)
  then show ?thesis using assms
    by (auto simp: limit_inv_def nth_append split: if_splits)
next
  case (Acquire i)
  then show ?thesis using assms
    by (auto simp: limit_inv_def set_frame_def nth_list_update split: if_splits)
next
  case (CtxFires i err)
  then show ?thesis using assms
    by (auto simp: limit_inv_def set_frame_def nth_list_update split: if_splits)
next
  case (Clamp i)
  then show ?thesis using assms
    by (auto simp: limit_inv_def set_frame_def nth_list_update clamp_limit_min split: if_splits)
next
  case (SendRequest i ok)
  then show ?thesis using assms
    by (auto simp: limit_inv_def set_frame_def nth_list_update split: if_splits)
next
  case (Reply i out)
  then show ?thesis using assms
    by (auto simp: limit_inv_def set_frame_def nth_list_update split: if_splits)
next
  case (Release i)
  then show ?thesis using assms
    by (auto simp: limit_inv_def set_frame_def nth_list_update split: if_splits pc.splits)
qed

lemma pool_step_args:
  assumes "pool_step decode sys a = Some sys'"
  shows "length (frames sys) \<le> length (frames sys')
     \<and> (\<forall>i<length (frames sys).
          f_channelID (frames sys' ! i) = f_channelID (frames sys ! i)
          \<and> f_offset (frames sys' ! i) = f_offset (frames sys ! i)
          \<and> arg_limit (frames sys' ! i) = arg_limit (frames sys ! i))"
  using assms
  by (cases a) (auto simp: set_frame_def nth_list_update nth_append split: if_splits pc.splits)

lemma pool_step_sent:
  assumes "pool_step decode sys a = Some sys'"
  shows "sent sys' = sent sys
     \<or> (\<exists>i. i < length (frames sys) \<and> f_pc (frames sys ! i) = Clamped
          \<and> sent sys' = sent sys @ [(i, make_request (pool sys) (f_channelID (frames sys ! i))
                                        (f_offset (frames sys ! i)) (f_limit (frames sys ! i)))])"
  using assms
  by (cases a) (auto simp: set_frame_def split: if_splits pc.splits)

lemma pool_step_sent_inv:
  assumes "limit_inv p sys" "sent_inv p sys" "pool_step decode sys a = Some sys'"
  shows "sent_inv p sys'"
  unfolding sent_inv_def
proof (intro allI impI)
  fix i r assume m: "(i, r) \<in> set (sent sys')"
  note ar = pool_step_args[OF assms(3)]
  have old: "(i, r) \<in> set (sent sys) \<Longrightarrow> i < length (frames sys')
        \<and> r = make_request p (f_channelID (frames sys' ! i)) (f_offset (frames sys' ! i))
                (min (arg_limit (frames sys' ! i)) (maxLimit p))"
  proof -
    assume "(i, r) \<in> set (sent sys)"
    then have "i < length (frames sys)"
      "r = make_request p (f_channelID (frames sys ! i)) (f_offset (frames sys ! i))
                (min (arg_limit (frames sys ! i)) (maxLimit p))"
      using assms(2) unfolding sent_inv_def by blast+
    then show ?thesis using ar by auto
  qed
  from pool_step_sent[OF assms(3)]
  show "i < length (frames sys')
        \<and> r = make_request p (f_channelID (frames sys' ! i)) (f_offset (frames sys' ! i))
                (min (arg_limit (frames sys' ! i)) (maxLimit p))"
  proof
    assume "sent sys' = sent sys"
    then show ?thesis using m old by simp
  next
    assume "\<exists>j. j < length (frames sys) \<and> f_pc (frames sys ! j) = Clamped
          \<and> sent sys' = sent sys @ [(j, make_request (pool sys) (f_channelID (frames sys ! j))
                                        (f_offset (frames sys ! j)) (f_limit (frames sys ! j)))]"
    then obtain j where j: "j < length (frames sys)" "f_pc (frames sys ! j) = Clamped"
      "sent sys' = sent sys @ [(j, make_request (pool sys) (f_channelID (frames sys ! j))
                                        (f_offset (frames sys ! j)) (f_limit (frames sys ! j)))]"
      by blast
    have lim: "f_limit (frames sys ! j) = min (arg_limit (frames sys ! j)) (maxLimit p)"
      and pl: "pool sys = p"
      using assms(1) j(1,2) unfolding limit_inv_def by auto
    show ?thesis
    proof (cases "(i, r) \<in> set (sent sys)")
      case True
      then show ?thesis by (rule old)
    next
      case False
      then have "i = j" "r = make_request p (f_channelID (frames sys ! j))
                                        (f_offset (frames sys ! j)) (min (arg_limit (frames sys ! j)) (maxLimit p))"
        using m j(3) lim pl by auto
      then show ?thesis using ar j(1) by auto
    qed
  qed
qed

lemma pool_run_limit_inv:
  "limit_inv p sys \<Longrightarrow> sent_inv p sys \<Longrightarrow> pool_run decode sys as = Some sys'
     \<Longrightarrow> limit_inv p sys' \<and> sent_inv p sys'"
proof (induction as arbitrary: sys)
  case Nil
  then show ?case by simp
next
  case (Cons a as)
  from Cons.prems(3) obtain sys1 where s1: "pool_step decode sys a = Some sys1"
    "pool_run decode sys1 as = Some sys'"
    by (auto split: option.splits)
  show ?case
    using Cons.IH[OF pool_step_limit_inv[OF Cons.prems(1) s1(1)]
        pool_step_sent_inv[OF Cons.prems(1,2) s1(1)] s1(2)] .
qed

lemma pool_init_limit_inv: "limit_inv p (pool_init p)" "sent_inv p (pool_init p)"
  by (simp_all add: limit_inv_def sent_inv_def pool_init_def)

text \<open>
  Claim C9, as the code has it. \<open>GetEvents\<close> acquires the permit first and clamps after: in
  every state the pool reaches, a call waiting in the select or holding a permit just
  acquired still has \<open>limit\<close> as it was passed, a call past the clamp has
  \<open>min requested maxLimit\<close>, and every request sent to the backend carries exactly
  \<open>min requested maxLimit\<close> of the call that sent it.
\<close>

theorem acquire_then_clamp:
  assumes "pool_run decode (pool_init p) as = Some sys"
  shows "(\<forall>i<length (frames sys).
            (f_pc (frames sys ! i) = AtSelect \<or> f_pc (frames sys ! i) = HoldingPermit
               \<longrightarrow> f_limit (frames sys ! i) = arg_limit (frames sys ! i))
            \<and> (f_pc (frames sys ! i) = Clamped \<or> f_pc (frames sys ! i) = InFlight
               \<longrightarrow> f_limit (frames sys ! i) = min (arg_limit (frames sys ! i)) (maxLimit p)))
       \<and> (\<forall>i r. (i, r) \<in> set (sent sys) \<longrightarrow>
            i < length (frames sys)
            \<and> req_limit r = min (arg_limit (frames sys ! i)) (maxLimit p))"
proof -
  from pool_run_limit_inv[OF pool_init_limit_inv assms]
  have a: "limit_inv p sys" and b: "sent_inv p sys" by blast+
  have "\<forall>i r. (i, r) \<in> set (sent sys) \<longrightarrow>
            i < length (frames sys)
            \<and> req_limit r = min (arg_limit (frames sys ! i)) (maxLimit p)"
    using b unfolding sent_inv_def make_request_def by fastforce
  then show ?thesis using a unfolding limit_inv_def by blast
qed

lemma sched_two_run: "pool_run (Decode lib_ex) (pool_init pool_100) sched_two = Some sys_two"
  by (simp add: sched_two_def sys_two_def pool_init_def pool_100_def set_frame_def
      clamp_limit_def make_request_def)

lemma sys_deferred_run:
  "pool_run (Decode lib_ex) (pool_init pool_100) (sched_two @ [Reply 0 (Response 503 ''busy'')])
     = Some sys_deferred"
  by (simp add: sched_two_def sys_deferred_def pool_init_def pool_100_def set_frame_def
      clamp_limit_def make_request_def exchange_result_def)

theorem permits_bounded_witness:
  "pool_run (Decode lib_ex) (pool_init pool_100) (sched_two @ [Reply 0 (Response 503 ''busy'')])
     = Some sys_deferred
   \<and> in_flight sys_deferred \<le> workers pool_100 \<and> permits_held sys_deferred = semaphore sys_deferred
   \<and> semaphore sys_deferred \<le> workers pool_100
   \<and> permits_held sys_deferred = 2 \<and> workers pool_100 = 2
   \<and> pool_step (Decode lib_ex) sys_deferred (Acquire 1) = None
   \<and> 0 < length (frames sys_deferred)
   \<and> f_pc (frames sys_deferred ! 0) = Deferred (Inl (UnexpectedStatus 503 ''busy''))
   \<and> (\<exists>sys'. pool_step (Decode lib_ex) sys_deferred (Release 0) = Some sys'
          \<and> semaphore sys' + 1 = semaphore sys_deferred
          \<and> f_pc (frames sys' ! 0) = Returned (Inl (UnexpectedStatus 503 ''busy'')))"
proof -
  note t = permits_bounded[OF sys_deferred_run]
  have a: "permits_held sys_deferred = 2" by (simp add: permits_held_def sys_deferred_def)
  have b: "workers pool_100 = 2" by (simp add: pool_100_def)
  have c: "pool_step (Decode lib_ex) sys_deferred (Acquire 1) = None"
    by (simp add: sys_deferred_def pool_100_def)
  have d: "0 < length (frames sys_deferred)"
    "f_pc (frames sys_deferred ! 0) = Deferred (Inl (UnexpectedStatus 503 ''busy''))"
    by (simp_all add: sys_deferred_def)
  from t d have "\<exists>sys'. pool_step (Decode lib_ex) sys_deferred (Release 0) = Some sys'
          \<and> semaphore sys' + 1 = semaphore sys_deferred
          \<and> f_pc (frames sys' ! 0) = Returned (Inl (UnexpectedStatus 503 ''busy''))"
    by blast
  with t a b c d sys_deferred_run show ?thesis by blast
qed

text \<open>
  The order the specification states fails: after the call with limit 500 has acquired its
  permit, its \<open>limit\<close> is still 500, above the cap of 100; the clamp is the next statement.
\<close>

theorem permit_held_before_clamp:
  "pool_run (Decode lib_ex) (pool_init pool_100) [Call ''a'' 0 500, Acquire 0]
     = Some \<lparr>pool = pool_100, semaphore = 1,
             frames = [\<lparr>f_channelID = ''a'', f_offset = 0, arg_limit = 500, f_limit = 500,
                        f_pc = HoldingPermit\<rparr>],
             sent = []\<rparr>
   \<and> min 500 (maxLimit pool_100) = 100"
  by (simp add: pool_init_def pool_100_def set_frame_def)

theorem acquire_then_clamp_witness:
  "pool_run (Decode lib_ex) (pool_init pool_100) sched_two = Some sys_two
   \<and> f_pc (frames sys_two ! 2) = HoldingPermit
   \<and> f_limit (frames sys_two ! 2) = arg_limit (frames sys_two ! 2)
   \<and> f_pc (frames sys_two ! 0) = InFlight
   \<and> f_limit (frames sys_two ! 0) = min (arg_limit (frames sys_two ! 0)) (maxLimit pool_100)
   \<and> (0, make_request pool_100 ''a'' 0 100) \<in> set (sent sys_two)
   \<and> req_limit (make_request pool_100 ''a'' 0 100) = min (arg_limit (frames sys_two ! 0)) (maxLimit pool_100)"
proof -
  note t = acquire_then_clamp[OF sched_two_run]
  have l: "length (frames sys_two) = 3" by (simp add: sys_two_def)
  have p2: "f_pc (frames sys_two ! 2) = HoldingPermit" by (simp add: sys_two_def)
  have p0: "f_pc (frames sys_two ! 0) = InFlight" by (simp add: sys_two_def)
  have m: "(0, make_request pool_100 ''a'' 0 100) \<in> set (sent sys_two)"
    by (simp add: sys_two_def make_request_def pool_100_def)
  from t l p2 have a: "f_limit (frames sys_two ! 2) = arg_limit (frames sys_two ! 2)" by simp
  from t l p0 have b: "f_limit (frames sys_two ! 0) = min (arg_limit (frames sys_two ! 0)) (maxLimit pool_100)"
    by simp
  from t m have c: "req_limit (make_request pool_100 ''a'' 0 100) = min (arg_limit (frames sys_two ! 0)) (maxLimit pool_100)"
    by blast
  from sched_two_run p2 a p0 b m c show ?thesis by blast
qed

lemma GetEvents_frame_script:
  assumes "0 < workers p"
  shows "pool_run decode (pool_init p) (Call c off lim # frame_script 0 env)
     = Some \<lparr>pool = p, semaphore = 0,
             frames = [\<lparr>f_channelID = c, f_offset = off, arg_limit = lim,
                        f_limit = (case permit env of PermitAcquired \<Rightarrow> clamp_limit p lim
                                   | ContextDone e \<Rightarrow> lim),
                        f_pc = Returned (fst (GetEvents p decode env c off lim))\<rparr>],
             sent = map (Pair 0) (snd (GetEvents p decode env c off lim))\<rparr>"
proof (cases "permit env")
  case PermitAcquired
  then show ?thesis using assms
    by (cases "url_ok env")
       (simp_all add: frame_script_def GetEvents_def pool_init_def set_frame_def Let_def)
next
  case (ContextDone e)
  then show ?thesis
    by (simp add: frame_script_def GetEvents_def pool_init_def set_frame_def)
qed

text \<open>
  Claim C4. A call waiting in the first select while every slot of the semaphore is taken
  cannot acquire a permit; when its context is done, it returns the error of the context,
  sends nothing to the backend and leaves the semaphore as it is. So does \<open>GetEvents\<close> as one
  call sees it: the context's error, and no request.
\<close>

theorem no_permit_no_request:
  assumes "i < length (frames sys)" "f_pc (frames sys ! i) = AtSelect"
    and "semaphore sys = workers (pool sys)"
    and "permit env = ContextDone err"
  shows "pool_step decode sys (Acquire i) = None
     \<and> (\<exists>sys'. pool_step decode sys (CtxFires i err) = Some sys'
           \<and> f_pc (frames sys' ! i) = Returned (Inl (CtxErr err))
           \<and> sent sys' = sent sys \<and> semaphore sys' = semaphore sys)
     \<and> GetEvents p decode env channelID offset limit = (Inl (CtxErr err), [])"
  using assms by (simp add: set_frame_def GetEvents_def)

theorem no_permit_no_request_witness:
  "1 < length (frames sys_two) \<and> f_pc (frames sys_two ! 1) = AtSelect
   \<and> semaphore sys_two = workers (pool sys_two)
   \<and> permit env_timeout = ContextDone DeadlineExceeded
   \<and> pool_step (Decode lib_ex) sys_two (Acquire 1) = None
   \<and> (\<exists>sys'. pool_step (Decode lib_ex) sys_two (CtxFires 1 DeadlineExceeded) = Some sys'
           \<and> f_pc (frames sys' ! 1) = Returned (Inl (CtxErr DeadlineExceeded))
           \<and> sent sys' = sent sys_two \<and> semaphore sys' = semaphore sys_two)
   \<and> GetEvents pool_100 (Decode lib_ex) env_timeout ''a'' 0 500
        = (Inl (CtxErr DeadlineExceeded), [])"
proof -
  have 1: "1 < length (frames sys_two)" by (simp add: sys_two_def)
  have 2: "f_pc (frames sys_two ! 1) = AtSelect" by (simp add: sys_two_def)
  have 3: "semaphore sys_two = workers (pool sys_two)" by (simp add: sys_two_def pool_100_def)
  have 4: "permit env_timeout = ContextDone DeadlineExceeded" by (simp add: env_timeout_def)
  from no_permit_no_request[OF 1 2 3 4, of "Decode lib_ex" pool_100 "''a''" 0 500] 1 2 3 4
  show ?thesis by blast
qed

section \<open>Properties of the interleaved registry\<close>

lemma count_pos: "i < length xs \<Longrightarrow> P (xs ! i) \<Longrightarrow> 0 < length (filter P xs)"
  by (metis filter_empty_conv length_greater_0_conv nth_mem)

lemma count_zero: "length (filter P xs) = 0 \<Longrightarrow> x \<in> set xs \<Longrightarrow> \<not> P x"
  by (simp add: filter_empty_conv)

lemma count_unique:
  "length (filter P xs) \<le> 1 \<Longrightarrow> i < length xs \<Longrightarrow> j < length xs \<Longrightarrow> P (xs ! i) \<Longrightarrow> P (xs ! j)
     \<Longrightarrow> i = j"
proof (induction xs arbitrary: i j)
  case Nil
  then show ?case by simp
next
  case (Cons x xs)
  show ?case
  proof (cases "P x")
    case True
    then have z: "length (filter P xs) = 0" using Cons.prems(1) by simp
    have "i = 0"
    proof (rule ccontr)
      assume "i \<noteq> 0"
      then obtain i' where "i = Suc i'" by (cases i) auto
      then have "xs ! i' \<in> set xs" "P (xs ! i')" using Cons.prems(2,4) by auto
      then show False using count_zero[OF z] by blast
    qed
    moreover have "j = 0"
    proof (rule ccontr)
      assume "j \<noteq> 0"
      then obtain j' where "j = Suc j'" by (cases j) auto
      then have "xs ! j' \<in> set xs" "P (xs ! j')" using Cons.prems(3,5) by auto
      then show False using count_zero[OF z] by blast
    qed
    ultimately show ?thesis by simp
  next
    case False
    then obtain i' j' where ij: "i = Suc i'" "j = Suc j'"
      using Cons.prems(4,5) by (cases i; cases j) auto
    have "i' = j'"
      using Cons.IH[of i' j'] Cons.prems False ij by simp
    then show ?thesis using ij by simp
  qed
qed

lemma lock_sweeping:
  assumes "lock_inv sys" "i < length (threads sys)" "is_sweeping (threads sys ! i)"
  shows "\<not> writer sys" "0 < readers sys"
proof -
  show "0 < readers sys"
    using assms count_pos[of i "threads sys" is_sweeping] by (simp add: lock_inv_def)
  then show "\<not> writer sys" using assms(1) by (auto simp: lock_inv_def)
qed

lemma lock_locked:
  assumes "lock_inv sys" "i < length (threads sys)" "is_locked (threads sys ! i)"
  shows "writer sys" "readers sys = 0" "\<forall>t\<in>set (threads sys). \<not> is_sweeping t"
    "\<forall>j<length (threads sys). is_locked (threads sys ! j) \<longrightarrow> j = i"
proof -
  from assms(1) have r: "readers sys = length (filter is_sweeping (threads sys))"
    and w: "(if writer sys then 1 else 0) = length (filter is_locked (threads sys))"
    and wr: "writer sys \<longrightarrow> readers sys = 0"
    unfolding lock_inv_def by blast+
  have p: "0 < length (filter is_locked (threads sys))"
    using count_pos[of i "threads sys" is_locked] assms(2,3) by simp
  show ws: "writer sys" using w p by (cases "writer sys") simp_all
  with wr show rs: "readers sys = 0" by blast
  with r have z: "length (filter is_sweeping (threads sys)) = 0" by simp
  show "\<forall>t\<in>set (threads sys). \<not> is_sweeping t"
  proof
    fix t assume "t \<in> set (threads sys)"
    then show "\<not> is_sweeping t" using count_zero[of is_sweeping "threads sys" t] z by simp
  qed
  have le: "length (filter is_locked (threads sys)) \<le> 1"
    using w by (cases "writer sys") simp_all
  show "\<forall>j<length (threads sys). is_locked (threads sys ! j) \<longrightarrow> j = i"
  proof (intro allI impI)
    fix j assume j: "j < length (threads sys)" "is_locked (threads sys ! j)"
    show "j = i" using count_unique[of is_locked "threads sys" j i] le j assms(2,3) by simp
  qed
qed

lemma lock_inv_update:
  assumes "lock_inv sys" "i < length (threads sys)"
    and "threads sys' = (threads sys)[i := t']"
    and "readers sys' + (if is_sweeping (threads sys ! i) then 1 else 0)
           = readers sys + (if is_sweeping t' then 1 else 0)"
    and "(if writer sys' then 1 else 0) + (if is_locked (threads sys ! i) then 1 else (0::nat))
           = (if writer sys then 1 else 0) + (if is_locked t' then 1 else 0)"
    and "writer sys' \<longrightarrow> readers sys' = 0"
  shows "lock_inv sys'"
proof -
  have a: "length (filter is_sweeping (threads sys')) + (if is_sweeping (threads sys ! i) then 1 else 0)
       = length (filter is_sweeping (threads sys)) + (if is_sweeping t' then 1 else 0)"
    unfolding assms(3) by (rule count_update[OF assms(2)])
  have b: "length (filter is_locked (threads sys')) + (if is_locked (threads sys ! i) then 1 else 0)
       = length (filter is_locked (threads sys)) + (if is_locked t' then 1 else 0)"
    unfolding assms(3) by (rule count_update[OF assms(2)])
  have r: "readers sys = length (filter is_sweeping (threads sys))"
    and w: "(if writer sys then 1 else 0) = length (filter is_locked (threads sys))"
    using assms(1) by (simp_all add: lock_inv_def)
  have "readers sys' = length (filter is_sweeping (threads sys'))"
    using a r assms(4) by linarith
  moreover have "(if writer sys' then 1 else 0) = length (filter is_locked (threads sys'))"
    using b w assms(5) by linarith
  ultimately show ?thesis using assms(6) by (simp add: lock_inv_def)
qed

lemma lock_inv_spawn:
  assumes "lock_inv sys" "threads sys' = threads sys @ [t]" "\<not> is_sweeping t" "\<not> is_locked t"
    "readers sys' = readers sys" "writer sys' = writer sys"
  shows "lock_inv sys'"
  using assms unfolding lock_inv_def by auto

lemma same_shape_lookup: "same_shape r r' \<Longrightarrow> lookup_handlers r' c = lookup_handlers r c"
  by (simp add: same_shape_def lookup_handlers_def)

lemma same_shape_inv:
  assumes "same_shape r r'" "registry_inv r"
  shows "registry_inv r'"
proof -
  have h: "handlers r' = handlers r" "length (chans r') = length (chans r)"
    "\<forall>q<length (chans r). closed (chans r' ! q) = closed (chans r ! q)"
    using assms(1) by (simp_all add: same_shape_def)
  have a: "\<forall>c hs. handlers r c = Some hs \<longrightarrow>
        hs \<noteq> [] \<and> distinct hs \<and> (\<forall>q\<in>set hs. q < length (chans r) \<and> \<not> closed (chans r ! q))"
    and b: "\<forall>c c' hs hs'. handlers r c = Some hs \<and> handlers r c' = Some hs' \<and> c \<noteq> c' \<longrightarrow>
          set hs \<inter> set hs' = {}"
    using assms(2) unfolding registry_inv_def by blast+
  have "\<forall>c hs. handlers r c = Some hs \<longrightarrow>
        hs \<noteq> [] \<and> distinct hs \<and> (\<forall>q\<in>set hs. q < length (chans r) \<and> \<not> closed (chans r' ! q))"
    using a h(3) by fastforce
  then show ?thesis unfolding registry_inv_def h(1,2) using b by blast
qed

lemma same_shape_thread_ok: "same_shape r r' \<Longrightarrow> thread_ok r' t = thread_ok r t"
  by (cases t) (simp_all add: same_shape_lookup)

lemma same_shape_grows: "same_shape r r' \<Longrightarrow> grows r r'"
  unfolding grows_def live_or_closed_def
  by (auto simp: same_shape_lookup) (auto simp: same_shape_def)

lemma try_send_same_shape:
  "try_send h n (chans r) = Inr cs \<Longrightarrow> same_shape r (r\<lparr>chans := cs\<rparr>)"
  by (auto simp: try_send_def same_shape_def nth_list_update split: if_splits)

lemma receive_same_shape:
  "receive ch (chans r) = Some cs \<Longrightarrow> same_shape r (r\<lparr>chans := cs\<rparr>)"
  by (auto simp: receive_def same_shape_def nth_list_update split: if_splits)

lemma snoc_decomp:
  "xs @ [e] = pre @ x # post \<longleftrightarrow>
     (post = [] \<and> x = e \<and> pre = xs) \<or> (\<exists>post'. post = post' @ [e] \<and> xs = pre @ x # post')"
proof (cases post rule: rev_cases)
  case Nil
  then show ?thesis by auto
next
  case (snoc post' y)
  have "xs @ [e] = pre @ x # post' @ [y] \<longleftrightarrow> xs = pre @ x # post' \<and> e = y"
  proof -
    have "pre @ x # post' @ [y] = (pre @ x # post') @ [y]" by simp
    then show ?thesis by (metis append1_eq_conv)
  qed
  then show ?thesis using snoc by auto
qed

lemma grows_refl: "grows r r"
  by (simp add: grows_def)

lemma grows_Unsubscribe:
  assumes "registry_inv r" "Unsubscribe c ch r = Inr r'"
  shows "grows r r'"
proof (cases "ch \<in> set (lookup_handlers r c)")
  case False
  then have "r' = r" using Unsubscribe_absent[OF assms(1) False] assms(2) by simp
  then show ?thesis by (simp add: grows_refl)
next
  case True
  then have r': "r' = removed_state c ch r"
    using Unsubscribe_present[OF assms(1) True] assms(2) by simp
  have chl: "ch < length (chans r)" using inv_lookup(2)[OF assms(1) True] by simp
  have len: "length (chans r') = length (chans r)" by (simp add: r' removed_state_def)
  have cl: "closed (chans r' ! q)" if "q < length (chans r)" "closed (chans r ! q)" for q
    using that by (cases "q = ch") (simp_all add: r' removed_state_def)
  have clch: "closed (chans r' ! ch)" using chl by (simp add: r' removed_state_def)
  have lk: "\<And>c0 q. q \<in> set (lookup_handlers r c0) \<Longrightarrow> q \<noteq> ch \<or> c0 \<noteq> c
                \<Longrightarrow> q \<in> set (lookup_handlers r' c0)"
    unfolding r' lookup_removed_state by auto
  show ?thesis
    unfolding grows_def live_or_closed_def
  proof (intro conjI allI impI)
    fix c0 q
    assume a: "q \<in> set (lookup_handlers r c0) \<or> q < length (chans r) \<and> closed (chans r ! q)"
    show "q \<in> set (lookup_handlers r' c0) \<or> q < length (chans r') \<and> closed (chans r' ! q)"
    proof (cases "q \<in> set (lookup_handlers r c0)")
      case True
      show ?thesis
      proof (cases "q = ch \<and> c0 = c")
        case True
        then show ?thesis using chl clch len by simp
      next
        case False
        then show ?thesis using lk[OF True] by blast
      qed
    next
      case False
      then show ?thesis using a cl len by auto
    qed
  next
    fix q assume "q < length (chans r) \<and> closed (chans r ! q)"
    then show "q < length (chans r')" "closed (chans r' ! q)" using cl len by auto
  qed
qed

lemma Unsubscribe_not_member:
  assumes "registry_inv r" "Unsubscribe c ch r = Inr r'"
  shows "ch \<notin> set (lookup_handlers r' c)"
proof (cases "ch \<in> set (lookup_handlers r c)")
  case False
  then show ?thesis using Unsubscribe_absent[OF assms(1) False] assms(2) by simp
next
  case True
  then have r': "r' = removed_state c ch r"
    using Unsubscribe_present[OF assms(1) True] assms(2) by simp
  have "distinct (lookup_handlers r c)" by (rule inv_lookup(1)[OF assms(1)])
  then show ?thesis unfolding r' lookup_removed_state by simp
qed

lemma Unsubscribe_total:
  assumes "registry_inv r"
  shows "\<exists>r'. Unsubscribe c ch r = Inr r'"
  using Unsubscribe_absent[OF assms, of ch c] Unsubscribe_present[OF assms, of ch c] by blast

lemma Subscribe_lookup:
  "lookup_handlers (snd (Subscribe c r)) c' =
     (if c' = c then lookup_handlers r c @ [length (chans r)] else lookup_handlers r c')"
  by (simp add: Subscribe_def Let_def lookup_handlers_def)

lemma grows_Subscribe: "grows r (snd (Subscribe c r))"
  unfolding grows_def live_or_closed_def Subscribe_lookup
  by (auto simp: Subscribe_def Let_def nth_append)

lemma Subscribe_member: "fst (Subscribe c r) \<in> set (lookup_handlers (snd (Subscribe c r)) c)"
  unfolding Subscribe_lookup by (simp add: Subscribe_def Let_def)

lemma thread_ok_idle: "\<not> is_sweeping t \<Longrightarrow> \<not> is_locked t \<Longrightarrow> thread_ok r t"
  by (cases t) simp_all

lemma trace_inv_grows:
  assumes "trace_inv sys" "trace sys' = trace sys" "grows (reg sys) (reg sys')"
  shows "trace_inv sys'"
  using assms unfolding trace_inv_def grows_def by metis

lemma trace_inv_send:
  assumes "trace_inv sys" "trace sys' = trace sys @ [SendAttempt h]"
    and "same_shape (reg sys) (reg sys')"
    and "h < length (chans (reg sys))" "\<not> closed (chans (reg sys) ! h)"
  shows "trace_inv sys'"
proof -
  have g: "grows (reg sys) (reg sys')" by (rule same_shape_grows[OF assms(3)])
  have A: "live_or_closed (reg sys') c q" if "SubscribeReturned c q \<in> set (trace sys')" for c q
  proof -
    note that
    then have "SubscribeReturned c q \<in> set (trace sys)" using assms(2) by simp
    then have "live_or_closed (reg sys) c q" using assms(1) unfolding trace_inv_def by blast
    then show ?thesis using g unfolding grows_def by blast
  qed
  have B: "q < length (chans (reg sys')) \<and> closed (chans (reg sys') ! q) \<and> SendAttempt q \<notin> set post"
    if a: "trace sys' = pre @ UnsubscribeReturned c q # post \<and> SubscribeReturned c q \<in> set pre"
    for pre post c q
  proof -
    note a
    then have "trace sys @ [SendAttempt h] = pre @ UnsubscribeReturned c q # post"
      using assms(2) by simp
    then obtain post' where p: "post = post' @ [SendAttempt h]"
        "trace sys = pre @ UnsubscribeReturned c q # post'"
      unfolding snoc_decomp by auto
    with a assms(1) have o: "q < length (chans (reg sys))" "closed (chans (reg sys) ! q)"
        "SendAttempt q \<notin> set post'"
      unfolding trace_inv_def by blast+
    have "q \<noteq> h" using o(2) assms(5) by auto
    then have "SendAttempt q \<notin> set post" using p(1) o(3) by simp
    moreover have "q < length (chans (reg sys'))" "closed (chans (reg sys') ! q)"
      using o(1,2) g unfolding grows_def by blast+
    ultimately show "q < length (chans (reg sys')) \<and> closed (chans (reg sys') ! q)
                  \<and> SendAttempt q \<notin> set post"
      by simp
  qed
  show ?thesis unfolding trace_inv_def using A B by blast
qed

lemma trace_inv_unsub:
  assumes "trace_inv sys" "trace sys' = trace sys @ [UnsubscribeReturned c0 q0]"
    and "reg sys' = reg sys" "q0 \<notin> set (lookup_handlers (reg sys) c0)"
  shows "trace_inv sys'"
proof -
  have A: "live_or_closed (reg sys') c q" if "SubscribeReturned c q \<in> set (trace sys')" for c q
  proof -
    note that
    then have "SubscribeReturned c q \<in> set (trace sys)" using assms(2) by simp
    then show ?thesis
      using assms(1,3) unfolding trace_inv_def by simp
  qed
  have B: "q < length (chans (reg sys')) \<and> closed (chans (reg sys') ! q) \<and> SendAttempt q \<notin> set post"
    if a: "trace sys' = pre @ UnsubscribeReturned c q # post \<and> SubscribeReturned c q \<in> set pre"
    for pre post c q
  proof -
    note a
    then have e: "trace sys @ [UnsubscribeReturned c0 q0] = pre @ UnsubscribeReturned c q # post"
      using assms(2) by simp
    show "q < length (chans (reg sys')) \<and> closed (chans (reg sys') ! q) \<and> SendAttempt q \<notin> set post"
    proof (cases "post = []")
      case True
      then have eq: "c = c0" "q = q0" "pre = trace sys" using e by auto
      then have "live_or_closed (reg sys) c0 q0" using a assms(1) unfolding trace_inv_def by blast
      then have "q0 < length (chans (reg sys)) \<and> closed (chans (reg sys) ! q0)"
        using assms(4) unfolding live_or_closed_def by blast
      then show ?thesis using eq True assms(3) by simp
    next
      case False
      then obtain post' where p: "post = post' @ [UnsubscribeReturned c0 q0]"
        "trace sys = pre @ UnsubscribeReturned c q # post'"
        using e unfolding snoc_decomp by auto
      with a assms(1) have "q < length (chans (reg sys))" "closed (chans (reg sys) ! q)"
        "SendAttempt q \<notin> set post'"
        unfolding trace_inv_def by blast+
      then show ?thesis using p(1) assms(3) by simp
    qed
  qed
  show ?thesis unfolding trace_inv_def using A B by blast
qed

lemma trace_inv_sub:
  assumes "trace_inv sys" "trace sys' = trace sys @ [SubscribeReturned c0 q0]"
    and "reg sys' = reg sys" "q0 \<in> set (lookup_handlers (reg sys) c0)"
  shows "trace_inv sys'"
proof -
  have A: "live_or_closed (reg sys') c q" if "SubscribeReturned c q \<in> set (trace sys')" for c q
  proof -
    note that
    then have "SubscribeReturned c q \<in> set (trace sys) \<or> (c = c0 \<and> q = q0)"
      using assms(2) by auto
    then show ?thesis
      using assms(1,3,4) unfolding trace_inv_def live_or_closed_def by auto
  qed
  have B: "q < length (chans (reg sys')) \<and> closed (chans (reg sys') ! q) \<and> SendAttempt q \<notin> set post"
    if a: "trace sys' = pre @ UnsubscribeReturned c q # post \<and> SubscribeReturned c q \<in> set pre"
    for pre post c q
  proof -
    note a
    then have e: "trace sys @ [SubscribeReturned c0 q0] = pre @ UnsubscribeReturned c q # post"
      using assms(2) by simp
    then obtain post' where p: "post = post' @ [SubscribeReturned c0 q0]"
        "trace sys = pre @ UnsubscribeReturned c q # post'"
      unfolding snoc_decomp by auto
    with a assms(1) have "q < length (chans (reg sys))" "closed (chans (reg sys) ! q)"
        "SendAttempt q \<notin> set post'"
      unfolding trace_inv_def by blast+
    then show "q < length (chans (reg sys')) \<and> closed (chans (reg sys') ! q) \<and> SendAttempt q \<notin> set post"
      using p(1) assms(3) by simp
  qed
  show ?thesis unfolding trace_inv_def using A B by blast
qed

lemma sys_invI:
  "registry_inv (reg sys) \<Longrightarrow> lock_inv sys \<Longrightarrow> (\<forall>t\<in>set (threads sys). thread_ok (reg sys) t)
     \<Longrightarrow> trace_inv sys \<Longrightarrow> sys_inv sys"
  by (simp add: sys_inv_def)

lemma sys_invD:
  assumes "sys_inv sys"
  shows "registry_inv (reg sys)" "lock_inv sys" "\<forall>t\<in>set (threads sys). thread_ok (reg sys) t"
    "trace_inv sys"
  using assms by (simp_all add: sys_inv_def)

lemma thread_ok_update:
  assumes "\<forall>t\<in>set xs. thread_ok r t" "thread_ok r t'"
  shows "\<forall>t\<in>set (xs[i := t']). thread_ok r t"
  using assms set_update_subset_insert[of xs i t'] by auto

lemma thread_ok_body:
  assumes "i < length xs"
    and "\<forall>j<length xs. j \<noteq> i \<longrightarrow> \<not> is_sweeping (xs ! j) \<and> \<not> is_locked (xs ! j)"
    and "thread_ok r' t'"
  shows "\<forall>t\<in>set (xs[i := t']). thread_ok r' t"
proof
  fix t assume "t \<in> set (xs[i := t'])"
  then obtain j where j: "j < length xs" "t = xs[i := t'] ! j"
    by (auto simp: in_set_conv_nth)
  show "thread_ok r' t"
  proof (cases "j = i")
    case True
    then show ?thesis using j assms(1,3) by simp
  next
    case False
    then have "t = xs ! j" using j by simp
    then show ?thesis using assms(2) j(1) False thread_ok_idle by blast
  qed
qed

lemma locked_others_idle:
  assumes "lock_inv sys" "i < length (threads sys)" "is_locked (threads sys ! i)"
  shows "\<forall>j<length (threads sys). j \<noteq> i
            \<longrightarrow> \<not> is_sweeping (threads sys ! j) \<and> \<not> is_locked (threads sys ! j)"
  using lock_locked(3,4)[OF assms] by (metis nth_mem)

lemma advance_sweep_lock:
  assumes "sys_inv sys" "i < length (threads sys)" "threads sys ! i = SweepWaiting n"
    and "advance sys i (threads sys ! i) = Next sys'"
  shows "sys_inv sys'"
proof -
  note d = sys_invD[OF assms(1)]
  from assms(3,4) have w: "\<not> writer sys"
    and s': "sys' = sys\<lparr>readers := readers sys + 1,
                     threads := (threads sys)
                        [i := Sweeping n (lookup_handlers (reg sys) (ChannelID n))]\<rparr>"
    by (auto split: if_splits)
  have "lock_inv sys'"
    by (rule lock_inv_update[OF d(2) assms(2), of _ "Sweeping n (lookup_handlers (reg sys) (ChannelID n))"])
       (simp_all add: s' assms(3) w)
  moreover have "\<forall>t\<in>set (threads sys'). thread_ok (reg sys') t"
    unfolding s' using thread_ok_update[OF d(3), of "Sweeping n (lookup_handlers (reg sys) (ChannelID n))" i]
    by simp
  moreover have "trace_inv sys'"
    by (rule trace_inv_grows[OF d(4)]) (simp_all add: s' grows_refl)
  moreover have "registry_inv (reg sys')" using d(1) by (simp add: s')
  ultimately show ?thesis by (intro sys_invI)
qed

lemma advance_sweep_unlock:
  assumes "sys_inv sys" "i < length (threads sys)" "threads sys ! i = Sweeping n []"
    and "advance sys i (threads sys ! i) = Next sys'"
  shows "sys_inv sys'"
proof -
  note d = sys_invD[OF assms(1)]
  have sw: "is_sweeping (threads sys ! i)" by (simp add: assms(3))
  note l = lock_sweeping[OF d(2) assms(2) sw]
  from assms(3,4) have s': "sys' = sys\<lparr>readers := readers sys - 1,
                                         threads := (threads sys)[i := Finished]\<rparr>"
    by simp
  have "lock_inv sys'"
    by (rule lock_inv_update[OF d(2) assms(2), of _ Finished])
       (use l in \<open>simp_all add: s' assms(3)\<close>)
  moreover have "\<forall>t\<in>set (threads sys'). thread_ok (reg sys') t"
    unfolding s' using thread_ok_update[OF d(3), of Finished i] by simp
  moreover have "trace_inv sys'"
    by (rule trace_inv_grows[OF d(4)]) (simp_all add: s' grows_refl)
  moreover have "registry_inv (reg sys')" using d(1) by (simp add: s')
  ultimately show ?thesis by (intro sys_invI)
qed

lemma sweep_head_open:
  assumes "sys_inv sys" "i < length (threads sys)" "threads sys ! i = Sweeping n (h # hs)"
  shows "h < length (chans (reg sys))" "\<not> closed (chans (reg sys) ! h)"
    "set hs \<subseteq> set (lookup_handlers (reg sys) (ChannelID n))"
proof -
  note d = sys_invD[OF assms(1)]
  have "thread_ok (reg sys) (threads sys ! i)" using d(3) assms(2) by simp
  then have sub: "set (h # hs) \<subseteq> set (lookup_handlers (reg sys) (ChannelID n))"
    by (simp add: assms(3))
  then show "set hs \<subseteq> set (lookup_handlers (reg sys) (ChannelID n))" by simp
  have "h \<in> set (lookup_handlers (reg sys) (ChannelID n))" using sub by simp
  then show "h < length (chans (reg sys))" "\<not> closed (chans (reg sys) ! h)"
    using inv_lookup(2)[OF d(1)] by blast+
qed

lemma advance_sweep_send:
  assumes "sys_inv sys" "i < length (threads sys)" "threads sys ! i = Sweeping n (h # hs)"
    and "advance sys i (threads sys ! i) = Next sys'"
  shows "sys_inv sys'"
proof -
  note d = sys_invD[OF assms(1)]
  note o = sweep_head_open[OF assms(1-3)]
  from assms(3,4) obtain cs where cs: "try_send h n (chans (reg sys)) = Inr cs"
    and s': "sys' = sys\<lparr>reg := (reg sys)\<lparr>chans := cs\<rparr>,
                    threads := (threads sys)[i := Sweeping n hs],
                    trace := trace sys @ [SendAttempt h]\<rparr>"
    by (auto split: sum.splits)
  have sh: "same_shape (reg sys) (reg sys')" using try_send_same_shape[OF cs] by (simp add: s')
  have sw: "is_sweeping (threads sys ! i)" by (simp add: assms(3))
  note l = lock_sweeping[OF d(2) assms(2) sw]
  have "lock_inv sys'"
    by (rule lock_inv_update[OF d(2) assms(2), of _ "Sweeping n hs"])
       (use l in \<open>simp_all add: s' assms(3)\<close>)
  moreover have "\<forall>t\<in>set (threads sys'). thread_ok (reg sys') t"
  proof -
    have "\<forall>t\<in>set (threads sys). thread_ok (reg sys') t"
      using d(3) same_shape_thread_ok[OF sh] by simp
    moreover have "thread_ok (reg sys') (Sweeping n hs)"
      using o(3) same_shape_lookup[OF sh] by simp
    ultimately have "\<forall>t\<in>set ((threads sys)[i := Sweeping n hs]). thread_ok (reg sys') t"
      by (rule thread_ok_update)
    then show ?thesis by (simp add: s')
  qed
  moreover have "trace_inv sys'"
    by (rule trace_inv_send[OF d(4) _ sh o(1,2)]) (simp add: s')
  moreover have "registry_inv (reg sys')" by (rule same_shape_inv[OF sh d(1)])
  ultimately show ?thesis by (intro sys_invI)
qed

lemma lock_inv_writer: "lock_inv sys \<Longrightarrow> writer sys \<longrightarrow> readers sys = 0"
  unfolding lock_inv_def by blast

lemma lock_inv_cong:
  assumes "lock_inv sys" "readers sys' = readers sys" "writer sys' = writer sys"
    "threads sys' = threads sys"
  shows "lock_inv sys'"
  using assms(1) unfolding lock_inv_def assms(2-4) .

lemma advance_lock:
  assumes "sys_inv sys" "i < length (threads sys)"
    and "\<not> is_sweeping (threads sys ! i)" "\<not> is_locked (threads sys ! i)"
    and "\<not> writer sys" "readers sys = 0"
    and "sys' = sys\<lparr>writer := True, threads := (threads sys)[i := t']\<rparr>"
    and "is_locked t'" "thread_ok (reg sys) t'"
  shows "sys_inv sys'"
proof -
  note d = sys_invD[OF assms(1)]
  have ns: "\<not> is_sweeping t'" using assms(8) by (cases t') simp_all
  have "lock_inv sys'"
    by (rule lock_inv_update[OF d(2) assms(2), of _ t'])
       (use assms(3-6,8) ns in \<open>simp_all add: assms(7)\<close>)
  moreover have "\<forall>t\<in>set (threads sys'). thread_ok (reg sys') t"
    unfolding assms(7) using thread_ok_update[OF d(3) assms(9), of i] by simp
  moreover have "trace_inv sys'"
    by (rule trace_inv_grows[OF d(4)]) (simp_all add: assms(7) grows_refl)
  moreover have "registry_inv (reg sys')" using d(1) by (simp add: assms(7))
  ultimately show ?thesis by (intro sys_invI)
qed

lemma advance_body:
  assumes "sys_inv sys" "i < length (threads sys)" "is_locked (threads sys ! i)"
    and "sys' = sys\<lparr>reg := r', threads := (threads sys)[i := t']\<rparr>"
    and "is_locked t'" "thread_ok r' t'" "registry_inv r'" "grows (reg sys) r'"
  shows "sys_inv sys'"
proof -
  note d = sys_invD[OF assms(1)]
  have ns: "\<not> is_sweeping t'" using assms(5) by (cases t') simp_all
  have ns0: "\<not> is_sweeping (threads sys ! i)" using assms(3) by (cases "threads sys ! i") simp_all
  have "lock_inv sys'"
    by (rule lock_inv_update[OF d(2) assms(2), of _ t'])
       (use assms(3,5) ns ns0 lock_inv_writer[OF d(2)] in \<open>simp_all add: assms(4)\<close>)
  moreover have "\<forall>t\<in>set (threads sys'). thread_ok (reg sys') t"
    using thread_ok_body[OF assms(2) locked_others_idle[OF d(2) assms(2,3)] assms(6)]
    by (simp add: assms(4))
  moreover have "trace_inv sys'"
    by (rule trace_inv_grows[OF d(4)]) (simp_all add: assms(4,8))
  moreover have "registry_inv (reg sys')" using assms(7) by (simp add: assms(4))
  ultimately show ?thesis by (intro sys_invI)
qed

lemma advance_unlock:
  assumes "sys_inv sys" "i < length (threads sys)" "is_locked (threads sys ! i)"
    and "sys' = sys\<lparr>writer := False, threads := (threads sys)[i := Finished],
                     trace := trace sys @ [ev]\<rparr>"
    and "trace_inv sys'"
  shows "sys_inv sys'"
proof -
  note d = sys_invD[OF assms(1)]
  note l = lock_locked(1,2)[OF d(2) assms(2,3)]
  have ns0: "\<not> is_sweeping (threads sys ! i)" using assms(3) by (cases "threads sys ! i") simp_all
  have "lock_inv sys'"
    by (rule lock_inv_update[OF d(2) assms(2), of _ Finished])
       (use assms(3) ns0 l in \<open>simp_all add: assms(4)\<close>)
  moreover have "\<forall>t\<in>set (threads sys'). thread_ok (reg sys') t"
    unfolding assms(4) using thread_ok_update[OF d(3), of Finished i] by simp
  moreover have "registry_inv (reg sys')" using d(1) by (simp add: assms(4))
  ultimately show ?thesis using assms(5) by (intro sys_invI)
qed

lemma advance_inv:
  assumes "sys_inv sys" "i < length (threads sys)" "advance sys i (threads sys ! i) = Next sys'"
  shows "sys_inv sys'"
proof (cases "threads sys ! i")
  case (SweepWaiting n)
  then show ?thesis using advance_sweep_lock[OF assms(1,2) _ assms(3)] by simp
next
  case (Sweeping n hs)
  show ?thesis
  proof (cases hs)
    case Nil
    then show ?thesis using advance_sweep_unlock[OF assms(1,2) _ assms(3)] Sweeping by simp
  next
    case (Cons h hs')
    then show ?thesis using advance_sweep_send[OF assms(1,2) _ assms(3)] Sweeping by simp
  qed
next
  case (UnsubWaiting c ch)
  with assms(3) have g: "\<not> writer sys" "readers sys = 0"
    and s': "sys' = sys\<lparr>writer := True, threads := (threads sys)[i := UnsubLocked c ch]\<rparr>"
    by (auto split: if_splits)
  show ?thesis
    by (rule advance_lock[OF assms(1,2) _ _ g s']) (simp_all add: UnsubWaiting)
next
  case (UnsubLocked c ch)
  note d = sys_invD[OF assms(1)]
  from UnsubLocked assms(3) obtain r' where r': "Unsubscribe c ch (reg sys) = Inr r'"
    and s': "sys' = sys\<lparr>reg := r', threads := (threads sys)[i := UnsubUnlocking c ch]\<rparr>"
    by (auto split: sum.splits)
  show ?thesis
  proof (rule advance_body[OF assms(1,2) _ s'])
    show "is_locked (threads sys ! i)" by (simp add: UnsubLocked)
    show "is_locked (UnsubUnlocking c ch)" by simp
    show "thread_ok r' (UnsubUnlocking c ch)"
      using Unsubscribe_not_member[OF d(1) r'] by simp
    show "registry_inv r'" by (rule inv_Unsubscribe[OF d(1) r'])
    show "grows (reg sys) r'" by (rule grows_Unsubscribe[OF d(1) r'])
  qed
next
  case (UnsubUnlocking c ch)
  note d = sys_invD[OF assms(1)]
  from UnsubUnlocking assms(3)
  have s': "sys' = sys\<lparr>writer := False, threads := (threads sys)[i := Finished],
               trace := trace sys @ [UnsubscribeReturned c ch]\<rparr>"
    by simp
  have "thread_ok (reg sys) (threads sys ! i)" using d(3) assms(2) by simp
  then have nm: "ch \<notin> set (lookup_handlers (reg sys) c)" by (simp add: UnsubUnlocking)
  have t: "trace_inv sys'"
    by (rule trace_inv_unsub[OF d(4) _ _ nm]) (simp_all add: s')
  show ?thesis
    by (rule advance_unlock[OF assms(1,2) _ s' t]) (simp add: UnsubUnlocking)
next
  case (SubWaiting c)
  with assms(3) have g: "\<not> writer sys" "readers sys = 0"
    and s': "sys' = sys\<lparr>writer := True, threads := (threads sys)[i := SubLocked c]\<rparr>"
    by (auto split: if_splits)
  show ?thesis
    by (rule advance_lock[OF assms(1,2) _ _ g s']) (simp_all add: SubWaiting)
next
  case (SubLocked c)
  note d = sys_invD[OF assms(1)]
  let ?ch = "fst (Subscribe c (reg sys))"
  let ?r = "snd (Subscribe c (reg sys))"
  from SubLocked assms(3)
  have s': "sys' = sys\<lparr>reg := ?r, threads := (threads sys)[i := SubUnlocking c ?ch]\<rparr>"
    by (simp split: prod.splits)
  show ?thesis
  proof (rule advance_body[OF assms(1,2) _ s'])
    show "is_locked (threads sys ! i)" by (simp add: SubLocked)
    show "is_locked (SubUnlocking c ?ch)" by simp
    show "thread_ok ?r (SubUnlocking c ?ch)" using Subscribe_member[of c "reg sys"] by simp
    show "registry_inv ?r" by (rule inv_Subscribe[OF d(1)])
    show "grows (reg sys) ?r" by (rule grows_Subscribe)
  qed
next
  case (SubUnlocking c ch)
  note d = sys_invD[OF assms(1)]
  from SubUnlocking assms(3)
  have s': "sys' = sys\<lparr>writer := False, threads := (threads sys)[i := Finished],
               trace := trace sys @ [SubscribeReturned c ch]\<rparr>"
    by simp
  have "thread_ok (reg sys) (threads sys ! i)" using d(3) assms(2) by simp
  then have m: "ch \<in> set (lookup_handlers (reg sys) c)" by (simp add: SubUnlocking)
  have t: "trace_inv sys'"
    by (rule trace_inv_sub[OF d(4) _ _ m]) (simp_all add: s')
  show ?thesis
    by (rule advance_unlock[OF assms(1,2) _ s' t]) (simp add: SubUnlocking)
next
  case Finished
  then show ?thesis using assms(3) by simp
qed

lemma advance_no_panic:
  assumes "sys_inv sys" "i < length (threads sys)"
  shows "advance sys i (threads sys ! i) \<noteq> Panic e"
proof (cases "threads sys ! i")
  case (Sweeping n hs)
  show ?thesis
  proof (cases hs)
    case Nil
    then show ?thesis using Sweeping by simp
  next
    case (Cons h hs')
    note o = sweep_head_open[OF assms, of n h hs']
    from try_send_ok[of h "chans (reg sys)" n] o Sweeping Cons
    obtain cs where "try_send h n (chans (reg sys)) = Inr cs" by auto
    then show ?thesis using Sweeping Cons by simp
  qed
next
  case (UnsubLocked c ch)
  from Unsubscribe_total[OF sys_invD(1)[OF assms(1)], of c ch]
  obtain r' where "Unsubscribe c ch (reg sys) = Inr r'" by blast
  then show ?thesis using UnsubLocked by simp
next
  case (SubLocked c)
  then show ?thesis by (simp split: prod.splits)
qed simp_all

lemma registry_step_inv:
  assumes "sys_inv sys" "registry_step unmarshal sys a = Next sys'"
  shows "sys_inv sys'"
proof (cases a)
  case (Advance i)
  then show ?thesis using assms advance_inv by (auto split: if_splits)
next
  case (Receive ch)
  note d = sys_invD[OF assms(1)]
  from Receive assms(2) obtain cs where cs: "receive ch (chans (reg sys)) = Some cs"
    and s': "sys' = sys\<lparr>reg := (reg sys)\<lparr>chans := cs\<rparr>\<rparr>"
    by (auto split: option.splits)
  have sh: "same_shape (reg sys) (reg sys')" using receive_same_shape[OF cs] by (simp add: s')
  have "lock_inv sys'" by (rule lock_inv_cong[OF d(2)]) (simp_all add: s')
  moreover have "\<forall>t\<in>set (threads sys'). thread_ok (reg sys') t"
    using d(3) same_shape_thread_ok[OF sh] by (simp add: s')
  moreover have "trace_inv sys'"
    by (rule trace_inv_grows[OF d(4) _ same_shape_grows[OF sh]]) (simp add: s')
  moreover have "registry_inv (reg sys')" by (rule same_shape_inv[OF sh d(1)])
  ultimately show ?thesis by (intro sys_invI)
next
  case (StartHandleMessage payload)
  note d = sys_invD[OF assms(1)]
  let ?t = "case unmarshal payload of None \<Rightarrow> Finished | Some n \<Rightarrow> SweepWaiting n"
  have s': "sys' = sys\<lparr>threads := threads sys @ [?t]\<rparr>"
    using StartHandleMessage assms(2) by simp
  have t: "\<not> is_sweeping ?t" "\<not> is_locked ?t" by (simp_all split: option.splits)
  have "lock_inv sys'" by (rule lock_inv_spawn[OF d(2) _ t]) (simp_all add: s')
  moreover have "\<forall>t\<in>set (threads sys'). thread_ok (reg sys') t"
    using d(3) thread_ok_idle[OF t] by (simp add: s')
  moreover have "trace_inv sys'"
    by (rule trace_inv_grows[OF d(4)]) (simp_all add: s' grows_refl)
  moreover have "registry_inv (reg sys')" using d(1) by (simp add: s')
  ultimately show ?thesis by (intro sys_invI)
next
  case (StartSubscribe c)
  note d = sys_invD[OF assms(1)]
  have s': "sys' = sys\<lparr>threads := threads sys @ [SubWaiting c]\<rparr>"
    using StartSubscribe assms(2) by simp
  have "lock_inv sys'" by (rule lock_inv_spawn[OF d(2), of _ "SubWaiting c"]) (simp_all add: s')
  moreover have "\<forall>t\<in>set (threads sys'). thread_ok (reg sys') t"
    using d(3) by (simp add: s')
  moreover have "trace_inv sys'"
    by (rule trace_inv_grows[OF d(4)]) (simp_all add: s' grows_refl)
  moreover have "registry_inv (reg sys')" using d(1) by (simp add: s')
  ultimately show ?thesis by (intro sys_invI)
next
  case (StartUnsubscribe c ch)
  note d = sys_invD[OF assms(1)]
  have s': "sys' = sys\<lparr>threads := threads sys @ [UnsubWaiting c ch]\<rparr>"
    using StartUnsubscribe assms(2) by simp
  have "lock_inv sys'" by (rule lock_inv_spawn[OF d(2), of _ "UnsubWaiting c ch"]) (simp_all add: s')
  moreover have "\<forall>t\<in>set (threads sys'). thread_ok (reg sys') t"
    using d(3) by (simp add: s')
  moreover have "trace_inv sys'"
    by (rule trace_inv_grows[OF d(4)]) (simp_all add: s' grows_refl)
  moreover have "registry_inv (reg sys')" using d(1) by (simp add: s')
  ultimately show ?thesis by (intro sys_invI)
qed

lemma registry_step_no_panic:
  assumes "sys_inv sys"
  shows "registry_step unmarshal sys a \<noteq> Panic e"
  using advance_no_panic[OF assms]
  by (cases a) (auto split: option.splits)

lemma registry_run_inv:
  assumes "sys_inv sys"
  shows "registry_run unmarshal sys as \<noteq> Panic e
     \<and> (\<forall>sys'. registry_run unmarshal sys as = Next sys' \<longrightarrow> sys_inv sys')"
  using assms
proof (induction as arbitrary: sys)
  case Nil
  then show ?case by simp
next
  case (Cons a as)
  show ?case
  proof (cases "registry_step unmarshal sys a")
    case NotEnabled
    then show ?thesis by simp
  next
    case (Panic e')
    then show ?thesis using registry_step_no_panic[OF Cons.prems] by blast
  next
    case (Next sys1)
    then have "sys_inv sys1" using registry_step_inv[OF Cons.prems] by blast
    from Cons.IH[OF this] Next show ?thesis by simp
  qed
qed

lemma registry_init_inv: "sys_inv registry_init"
  by (simp add: sys_inv_def registry_init_def lock_inv_def trace_inv_def inv_New)

text \<open>
  The steps of one sweep, run with no other call in between, do what \<open>handleMessage\<close> does.
\<close>

lemma sweep_run_deliver:
  assumes "i < length (threads sys)" "threads sys ! i = Sweeping n hs"
    and "deliver n hs (chans (reg sys)) = Inr cs"
  shows "registry_run unmarshal sys (replicate (length hs) (Advance i))
     = Next (sys\<lparr>reg := (reg sys)\<lparr>chans := cs\<rparr>,
               threads := (threads sys)[i := Sweeping n []],
               trace := trace sys @ map SendAttempt hs\<rparr>)"
  using assms
proof (induction hs arbitrary: sys)
  case Nil
  then have "(threads sys)[i := Sweeping n []] = threads sys"
    by (metis list_update_id)
  then show ?case using Nil by simp
next
  case (Cons h hs)
  from Cons.prems(3) obtain c1 where c1: "try_send h n (chans (reg sys)) = Inr c1"
    and d: "deliver n hs c1 = Inr cs"
    by (auto split: sum.splits)
  let ?sys1 = "sys\<lparr>reg := (reg sys)\<lparr>chans := c1\<rparr>,
                    threads := (threads sys)[i := Sweeping n hs],
                    trace := trace sys @ [SendAttempt h]\<rparr>"
  have st: "registry_step unmarshal sys (Advance i) = Next ?sys1"
    using Cons.prems(1,2) c1 by simp
  have "registry_run unmarshal ?sys1 (replicate (length hs) (Advance i))
     = Next (?sys1\<lparr>reg := (reg ?sys1)\<lparr>chans := cs\<rparr>,
               threads := (threads ?sys1)[i := Sweeping n []],
               trace := trace ?sys1 @ map SendAttempt hs\<rparr>)"
    by (rule Cons.IH) (use Cons.prems(1) d in simp_all)
  then show ?case using st by simp
qed

lemma registry_run_append:
  "registry_run unmarshal sys (as @ bs) =
     (case registry_run unmarshal sys as of
        Next sys' \<Rightarrow> registry_run unmarshal sys' bs
      | r \<Rightarrow> r)"
proof (induction as arbitrary: sys)
  case Nil
  then show ?case by simp
next
  case (Cons a as)
  then show ?case by (cases "registry_step unmarshal sys a") simp_all
qed

lemma handleMessage_as_steps:
  assumes "\<not> writer sys" "unmarshal payload = Some n"
    and "handleMessage unmarshal payload (reg sys) = Inr r'"
  shows "registry_run unmarshal sys
           (StartHandleMessage payload # Advance (length (threads sys))
            # replicate (length (lookup_handlers (reg sys) (ChannelID n)))
                (Advance (length (threads sys)))
            @ [Advance (length (threads sys))])
     = Next (sys\<lparr>reg := r', threads := threads sys @ [Finished],
               trace := trace sys @ map SendAttempt (lookup_handlers (reg sys) (ChannelID n))\<rparr>)"
proof -
  let ?i = "length (threads sys)"
  let ?hs = "lookup_handlers (reg sys) (ChannelID n)"
  from assms(2,3) obtain cs where cs: "deliver n ?hs (chans (reg sys)) = Inr cs"
    and r': "r' = (reg sys)\<lparr>chans := cs\<rparr>"
    by (auto simp: handleMessage_def split: sum.splits)
  let ?sys2 = "sys\<lparr>threads := threads sys @ [Sweeping n ?hs], readers := readers sys + 1\<rparr>"
  have two: "registry_run unmarshal sys [StartHandleMessage payload, Advance ?i] = Next ?sys2"
    using assms(1,2) by simp
  have sends: "registry_run unmarshal ?sys2 (replicate (length ?hs) (Advance ?i))
     = Next (?sys2\<lparr>reg := (reg ?sys2)\<lparr>chans := cs\<rparr>,
               threads := (threads ?sys2)[?i := Sweeping n []],
               trace := trace ?sys2 @ map SendAttempt ?hs\<rparr>)"
    by (rule sweep_run_deliver) (use cs in simp_all)
  let ?sys3 = "?sys2\<lparr>reg := (reg ?sys2)\<lparr>chans := cs\<rparr>,
               threads := (threads ?sys2)[?i := Sweeping n []],
               trace := trace ?sys2 @ map SendAttempt ?hs\<rparr>"
  have "registry_run unmarshal sys
           ([StartHandleMessage payload, Advance ?i]
            @ replicate (length ?hs) (Advance ?i) @ [Advance ?i])
     = registry_run unmarshal ?sys3 [Advance ?i]"
    by (simp only: registry_run_append two sends step_result.simps)
  also have "\<dots> = Next (sys\<lparr>reg := r', threads := threads sys @ [Finished],
               trace := trace sys @ map SendAttempt ?hs\<rparr>)"
    by (simp add: r')
  finally show ?thesis by simp
qed

text \<open>
  Claim C1. Under every schedule of calls of \<open>handleMessage\<close>, \<open>Subscribe\<close> and
  \<open>Unsubscribe\<close> and of receives, interleaved step by step under the lock, no step panics
  (in particular no sweep sends on a closed queue), and once \<open>Unsubscribe\<close> has returned for
  a queue under the channel ID that \<open>Subscribe\<close> had returned it for, no sweep runs its
  select on that queue again.
\<close>

theorem no_send_after_unsubscribe:
  "registry_run unmarshal registry_init schedule \<noteq> Panic e
   \<and> (\<forall>sys pre post channelID queue.
        registry_run unmarshal registry_init schedule = Next sys
        \<and> trace sys = pre @ UnsubscribeReturned channelID queue # post
        \<and> SubscribeReturned channelID queue \<in> set pre
        \<longrightarrow> SendAttempt queue \<notin> set post)"
proof -
  note r = registry_run_inv[OF registry_init_inv, of unmarshal schedule e]
  have "SendAttempt queue \<notin> set post"
    if "registry_run unmarshal registry_init schedule = Next sys"
      "trace sys = pre @ UnsubscribeReturned channelID queue # post"
      "SubscribeReturned channelID queue \<in> set pre"
    for sys pre post channelID queue
  proof -
    have "trace_inv sys" using r that(1) sys_invD(4) by blast
    then show ?thesis using that(2,3) unfolding trace_inv_def by blast
  qed
  then show ?thesis using r by blast
qed

lemma sched_c1_run: "registry_run unmarshal_id registry_init sched_c1 = Next final_c1"
  by (simp add: sched_c1_def final_c1_def registry_init_def NewSubscriber_def unmarshal_id_def
      note_a_def Subscribe_def Unsubscribe_def lookup_handlers_def try_send_def close_chan_def
      delete_if_empty_def)

theorem no_send_after_unsubscribe_witness:
  "registry_run unmarshal_id registry_init sched_c1 = Next final_c1
   \<and> trace final_c1 = [SubscribeReturned ''a'' 0, SendAttempt 0]
                        @ UnsubscribeReturned ''a'' 0 # [SubscribeReturned ''a'' 1, SendAttempt 1]
   \<and> SubscribeReturned ''a'' 0 \<in> set [SubscribeReturned ''a'' 0, SendAttempt 0]
   \<and> SendAttempt 0 \<notin> set [SubscribeReturned ''a'' 1, SendAttempt 1]
   \<and> registry_run unmarshal_id registry_init
        (take 6 sched_c1 @ [StartUnsubscribe ''a'' 0, Advance 2]) = NotEnabled"
proof -
  have t: "trace final_c1 = [SubscribeReturned ''a'' 0, SendAttempt 0]
                        @ UnsubscribeReturned ''a'' 0 # [SubscribeReturned ''a'' 1, SendAttempt 1]"
    by (simp add: final_c1_def)
  have m: "SubscribeReturned ''a'' 0 \<in> set [SubscribeReturned ''a'' 0, SendAttempt 0]" by simp
  have b: "registry_run unmarshal_id registry_init
        (take 6 sched_c1 @ [StartUnsubscribe ''a'' 0, Advance 2]) = NotEnabled"
    by (simp add: sched_c1_def registry_init_def NewSubscriber_def unmarshal_id_def
      Subscribe_def lookup_handlers_def)
  from no_send_after_unsubscribe[of unmarshal_id sched_c1 SendOnClosedChannel] sched_c1_run t m
  have "SendAttempt 0 \<notin> set [SubscribeReturned ''a'' 1, SendAttempt 1]" by blast
  with sched_c1_run t m b show ?thesis by blast
qed

end
